theory Spec2Isabelle
  imports Main "HOL-Library.Product_Lexorder"
begin

section \<open>Data model of the growing segment\<close>

text \<open>
  The embedding follows \<^verbatim>\<open>src/internal/core/src/segcore/SegmentGrowingImpl.cpp\<close>.
  A \<^verbatim>\<open>Timestamp\<close> is an unsigned 64-bit integer that the code only compares, so it is a
  natural number; \<^verbatim>\<open>idx_t\<close> and every offset, barrier and size is an \<^verbatim>\<open>int64_t\<close>, modelled
  as an integer. The only arithmetic that can leave the 64-bit range is the atomic
  \<^verbatim>\<open>fetch_add\<close> of the reservation counters, where the wrap-around is written out.
  A member the source writes with a trailing underscore (\<^verbatim>\<open>record_\<close>, \<^verbatim>\<open>uid2offset_\<close>)
  is a field whose name ends in \<open>_m\<close> here (\<open>record_m\<close>, \<open>uid2offset_m\<close>), since a name
  cannot end in an underscore.
\<close>

type_synonym Timestamp = nat
type_synonym idx_t = int

text \<open>
  Every way the code leaves a function other than by its \<^verbatim>\<open>return\<close>:
  \<^item> \<open>AssertFailure\<close>: an \<^verbatim>\<open>Assert(...)\<close> whose condition is false;
  \<^item> \<open>SchemaMismatch e s\<close>: the \<^verbatim>\<open>std::runtime_error\<close> of \<^verbatim>\<open>Insert\<close>
    (``entity length = e, schema length = s'');
  \<^item> \<open>Panic msg\<close>: \<^verbatim>\<open>PanicInfo(msg)\<close>;
  \<^item> \<open>LengthError\<close>: \<^verbatim>\<open>std::vector::resize\<close> with a negative size;
  \<^item> \<open>OutOfRange\<close>: a read of an array cell that was never written, or past the end of
    a caller's buffer (undefined behaviour in C++, made an explicit failure here).
\<close>

datatype error =
    AssertFailure
  | SchemaMismatch int int
  | Panic string
  | LengthError
  | OutOfRange

datatype Status = OK

datatype SegmentState = Open | Closed

text \<open>
  Modelled from the spec: \<^verbatim>\<open>ConcurrentVector\<close> is declared outside the source file. The
  spec describes it as an append-only typed array with \<^verbatim>\<open>set_data(offset, ptr, count)\<close>;
  it is modelled as a store from offsets to the values written so far.
\<close>

type_synonym 'a ConcurrentVector = "int \<Rightarrow> 'a option"

fun set_data :: "'a ConcurrentVector \<Rightarrow> int \<Rightarrow> 'a list \<Rightarrow> 'a ConcurrentVector" where
  "set_data vec element_offset [] = vec"
| "set_data vec element_offset (x # xs) =
     set_data (vec(element_offset \<mapsto> x)) (element_offset + 1) xs"

text \<open>
  Modelled from the spec: \<^verbatim>\<open>AckResponder\<close> is declared outside the source file. The spec:
  it receives \<^verbatim>\<open>AddSegment(begin, end)\<close> and maintains the maximum \<open>k\<close> such that
  \<open>[0, k)\<close> is fully covered by completed segments; \<^verbatim>\<open>GetAck()\<close> returns this frontier.
\<close>

record AckResponder =
  segments_m :: "(int \<times> int) list"

definition AddSegment :: "int \<Rightarrow> int \<Rightarrow> AckResponder \<Rightarrow> AckResponder" where
  "AddSegment seg_begin seg_end a = a\<lparr>segments_m := segments_m a @ [(seg_begin, seg_end)]\<rparr>"

definition extend_frontier :: "(int \<times> int) list \<Rightarrow> int \<Rightarrow> int" where
  "extend_frontier segs k = fold (\<lambda>(b, e) k'. if b \<le> k' \<and> k' < e then e else k') segs k"

definition GetAck :: "AckResponder \<Rightarrow> int" where
  "GetAck a = ((extend_frontier (segments_m a)) ^^ (length (segments_m a))) 0"

text \<open>
  Modelled from the spec: the bitmap type and \<^verbatim>\<open>DeletedRecord::TmpBitmap\<close> with its
  \<^verbatim>\<open>clone\<close> are declared outside the source file. The spec: a \<^verbatim>\<open>TmpBitmap\<close> consists of
  \<^verbatim>\<open>del_barrier\<close> and a bitmap over \<open>[0, insert_barrier)\<close> where a set bit means the row is
  deleted; \<^verbatim>\<open>clone\<close> makes a new bitmap sized to the given capacity, preserving
  previously-set bits. \<^verbatim>\<open>count()\<close> is the number of bits the bitmap spans.
\<close>

type_synonym Bitmap = "bool list"

definition bitmap_count :: "Bitmap \<Rightarrow> int" where
  "bitmap_count bm = int (length bm)"

definition bitmap_test :: "Bitmap \<Rightarrow> int \<Rightarrow> bool" where
  "bitmap_test bm i = (0 \<le> i \<and> i < int (length bm) \<and> bm ! nat i)"

definition bitmap_set :: "Bitmap \<Rightarrow> int \<Rightarrow> Bitmap" where
  "bitmap_set bm i = (if 0 \<le> i then bm[nat i := True] else bm)"

definition bitmap_clear :: "Bitmap \<Rightarrow> int \<Rightarrow> Bitmap" where
  "bitmap_clear bm i = (if 0 \<le> i then bm[nat i := False] else bm)"

record TmpBitmap =
  del_barrier :: int
  bitmap_ptr :: Bitmap

definition clone :: "TmpBitmap \<Rightarrow> int \<Rightarrow> TmpBitmap" where
  "clone entry capacity =
     \<lparr>del_barrier = del_barrier entry,
      bitmap_ptr = take (nat capacity) (bitmap_ptr entry)
                   @ replicate (nat capacity - length (bitmap_ptr entry)) False\<rparr>"

text \<open>
  The insert record and the deleted record share their layout (the spec calls them
  structurally identical): a reservation counter, an acknowledgment responder and the
  timestamp and uid columns. The insert record adds one column per schema field, the
  deleted record the cache of reconciled bitmaps.
\<close>

record LogRecord =
  reserved :: int
  ack_responder_m :: AckResponder
  timestamps_m :: "Timestamp ConcurrentVector"
  uids_m :: "idx_t ConcurrentVector"

record InsertRecord = LogRecord +
  entity_vec_m :: "nat \<Rightarrow> char list ConcurrentVector"

record DeletedRecord = LogRecord +
  lru_m :: TmpBitmap

text \<open>
  Modelled from the spec: \<^verbatim>\<open>get_lru_entry\<close> and \<^verbatim>\<open>insert_lru_entry\<close> are declared outside
  the source file. The spec: \<^verbatim>\<open>get_lru_entry\<close> fetches the most recently cached bitmap, and a
  published result becomes the new most recent entry. Only the most recent entry is ever
  read, so the cache is modelled by that entry.
\<close>

definition get_lru_entry :: "DeletedRecord \<Rightarrow> TmpBitmap" where
  "get_lru_entry dr = lru_m dr"

definition insert_lru_entry :: "TmpBitmap \<Rightarrow> DeletedRecord \<Rightarrow> DeletedRecord" where
  "insert_lru_entry new_entry dr = dr\<lparr>lru_m := new_entry\<rparr>"

text \<open>
  The segment. \<open>schema_m\<close> holds the schema's \<^verbatim>\<open>get_sizeof_infos()\<close>, the byte width of
  each field; \<open>uid2offset_m\<close> is the \<^verbatim>\<open>std::multimap\<close> from uid to offset, kept as the list
  of its pairs in insertion order (a multimap keeps equal keys in insertion order). The
  indexing records and the chunk size take no part in the operations below and are left
  out.
\<close>

record SegmentGrowingImpl =
  schema_m :: "nat list"
  record_m :: InsertRecord
  deleted_record_m :: DeletedRecord
  uid2offset_m :: "(idx_t \<times> int) list"
  state_m :: SegmentState

text \<open>
  Modelled from the spec: \<^verbatim>\<open>Schema\<close> is declared outside the source file. The spec: a
  read-only descriptor giving the byte size of each field and the total row size; the
  total row size is the sum of the field sizes.
\<close>

definition get_total_sizeof :: "nat list \<Rightarrow> int" where
  "get_total_sizeof sizeof_infos = int (sum_list sizeof_infos)"

text \<open>
  Modelled from the spec: the constructor is outside the source file. The spec: both
  records are created empty when the segment opens; the cache then holds the snapshot
  that reflects no delete and spans no row.
\<close>

definition empty_ack :: AckResponder where
  "empty_ack = \<lparr>segments_m = []\<rparr>"

definition new_segment :: "nat list \<Rightarrow> SegmentGrowingImpl" where
  "new_segment sizeof_infos =
     \<lparr>schema_m = sizeof_infos,
      record_m = \<lparr>reserved = 0, ack_responder_m = empty_ack,
                 timestamps_m = (\<lambda>_. None), uids_m = (\<lambda>_. None),
                 entity_vec_m = (\<lambda>_ _. None)\<rparr>,
      deleted_record_m = \<lparr>reserved = 0, ack_responder_m = empty_ack,
                 timestamps_m = (\<lambda>_. None), uids_m = (\<lambda>_. None),
                 lru_m = \<lparr>del_barrier = 0, bitmap_ptr = []\<rparr>\<rparr>,
      uid2offset_m = [],
      state_m = Open\<rparr>"

section \<open>Reservation\<close>

text \<open>
  \<^verbatim>\<open>fetch_add\<close> on a \<^verbatim>\<open>std::atomic<int64_t>\<close> returns the old value and stores the sum,
  which wraps around in two's complement.
\<close>

definition fetch_add :: "int \<Rightarrow> int \<Rightarrow> int \<times> int" where
  "fetch_add counter n = (counter, signed_take_bit 63 (counter + n))"

definition PreInsert :: "SegmentGrowingImpl \<Rightarrow> int \<Rightarrow> int \<times> SegmentGrowingImpl" where
  "PreInsert s size' =
     (let (reserved_begin, r) = fetch_add (reserved (record_m s)) size'
      in (reserved_begin, s\<lparr>record_m := (record_m s)\<lparr>reserved := r\<rparr>\<rparr>))"

definition PreDelete :: "SegmentGrowingImpl \<Rightarrow> int \<Rightarrow> int \<times> SegmentGrowingImpl" where
  "PreDelete s size' =
     (let (reserved_begin, r) = fetch_add (reserved (deleted_record_m s)) size'
      in (reserved_begin, s\<lparr>deleted_record_m := (deleted_record_m s)\<lparr>reserved := r\<rparr>\<rparr>))"

section \<open>Deletion reconciliation\<close>

text \<open>\<^verbatim>\<open>uid2offset_.equal_range(uid)\<close>: the offsets stored under \<open>uid\<close>, in insertion order.\<close>

definition equal_range :: "(idx_t \<times> int) list \<Rightarrow> idx_t \<Rightarrow> int list" where
  "equal_range m uid = map snd (filter (\<lambda>p. fst p = uid) m)"

text \<open>
  The inner loop of the backward branch (source lines 69--75): every candidate's timestamp
  is read; a candidate before the query timestamp must lie below the insert barrier, or
  the assertion fails.
\<close>

fun scan_backward ::
  "Timestamp ConcurrentVector \<Rightarrow> Timestamp \<Rightarrow> int \<Rightarrow> int list \<Rightarrow> int \<Rightarrow> error + int" where
  "scan_backward tss query_timestamp insert_barrier [] the_offset = Inr the_offset"
| "scan_backward tss query_timestamp insert_barrier (offset # rest) the_offset =
     (case tss offset of
        None \<Rightarrow> Inl OutOfRange
      | Some ts \<Rightarrow>
          if ts < query_timestamp then
            (if offset < insert_barrier
             then scan_backward tss query_timestamp insert_barrier rest (max the_offset offset)
             else Inl AssertFailure)
          else scan_backward tss query_timestamp insert_barrier rest the_offset)"

text \<open>
  The inner loop of the forward branch (source lines 92--101): a candidate at or above the
  insert barrier is skipped before its timestamp is read.
\<close>

fun scan_forward ::
  "Timestamp ConcurrentVector \<Rightarrow> Timestamp \<Rightarrow> int \<Rightarrow> int list \<Rightarrow> int \<Rightarrow> error + int" where
  "scan_forward tss query_timestamp insert_barrier [] the_offset = Inr the_offset"
| "scan_forward tss query_timestamp insert_barrier (offset # rest) the_offset =
     (if offset \<ge> insert_barrier
      then scan_forward tss query_timestamp insert_barrier rest the_offset
      else
        (case tss offset of
           None \<Rightarrow> Inl OutOfRange
         | Some ts \<Rightarrow>
             if ts < query_timestamp then
               (if offset < insert_barrier
                then scan_forward tss query_timestamp insert_barrier rest (max the_offset offset)
                else Inl AssertFailure)
             else scan_forward tss query_timestamp insert_barrier rest the_offset))"

text \<open>
  The outer loops (source lines 62--82 and 85--110) run \<open>del_index\<close> up to \<open>stop\<close>. They
  read the delete log's uid column, the uid index and the insert record's timestamps,
  and clear or set one bit per delete-log entry whose uid resolves.
\<close>

function backward_loop ::
  "idx_t ConcurrentVector \<Rightarrow> (idx_t \<times> int) list \<Rightarrow> Timestamp ConcurrentVector \<Rightarrow>
   Timestamp \<Rightarrow> int \<Rightarrow> int \<Rightarrow> int \<Rightarrow> Bitmap \<Rightarrow> error + Bitmap" where
  "backward_loop del_uids u2o tss query_timestamp insert_barrier del_index stop bitmap =
     (if del_index < stop then
        (case del_uids del_index of
           None \<Rightarrow> Inl OutOfRange
         | Some uid \<Rightarrow>
             (case scan_backward tss query_timestamp insert_barrier (equal_range u2o uid) (- 1) of
                Inl e \<Rightarrow> Inl e
              | Inr the_offset \<Rightarrow>
                  if the_offset = - 1
                  then backward_loop del_uids u2o tss query_timestamp insert_barrier
                         (del_index + 1) stop bitmap
                  else backward_loop del_uids u2o tss query_timestamp insert_barrier
                         (del_index + 1) stop (bitmap_clear bitmap the_offset)))
      else Inr bitmap)"
  by pat_completeness auto
termination
  by (relation "measure (\<lambda>(del_uids, u2o, tss, qt, ib, del_index, stop, bitmap).
                  nat (stop - del_index))") auto

function forward_loop ::
  "idx_t ConcurrentVector \<Rightarrow> (idx_t \<times> int) list \<Rightarrow> Timestamp ConcurrentVector \<Rightarrow>
   Timestamp \<Rightarrow> int \<Rightarrow> int \<Rightarrow> int \<Rightarrow> Bitmap \<Rightarrow> error + Bitmap" where
  "forward_loop del_uids u2o tss query_timestamp insert_barrier del_index stop bitmap =
     (if del_index < stop then
        (case del_uids del_index of
           None \<Rightarrow> Inl OutOfRange
         | Some uid \<Rightarrow>
             (case scan_forward tss query_timestamp insert_barrier (equal_range u2o uid) (- 1) of
                Inl e \<Rightarrow> Inl e
              | Inr the_offset \<Rightarrow>
                  if the_offset = - 1
                  then forward_loop del_uids u2o tss query_timestamp insert_barrier
                         (del_index + 1) stop bitmap
                  else forward_loop del_uids u2o tss query_timestamp insert_barrier
                         (del_index + 1) stop (bitmap_set bitmap the_offset)))
      else Inr bitmap)"
  by pat_completeness auto
termination
  by (relation "measure (\<lambda>(del_uids, u2o, tss, qt, ib, del_index, stop, bitmap).
                  nat (stop - del_index))") auto

text \<open>
  \<^verbatim>\<open>get_deleted_bitmap\<close> (source lines 44--114). The result is the returned entry or the
  failure, paired with the segment after the call; a failure happens before the cache is
  touched, so it leaves the segment as it was.
\<close>

definition get_deleted_bitmap ::
  "SegmentGrowingImpl \<Rightarrow> int \<Rightarrow> Timestamp \<Rightarrow> int \<Rightarrow> bool \<Rightarrow>
   (error + TmpBitmap) \<times> SegmentGrowingImpl" where
  "get_deleted_bitmap s del_bar query_timestamp insert_barrier force =
     (let old = get_lru_entry (deleted_record_m s) in
      if (\<not> force \<or> bitmap_count (bitmap_ptr old) = insert_barrier)
         \<and> del_barrier old = del_bar
      then (Inr old, s)
      else
        let current = (clone old insert_barrier)\<lparr>del_barrier := del_bar\<rparr>;
            bitmap = bitmap_ptr current
        in
          if del_bar < del_barrier old then
            (case backward_loop (uids_m (deleted_record_m s)) (uid2offset_m s)
                    (timestamps_m (record_m s)) query_timestamp insert_barrier
                    del_bar (del_barrier old) bitmap of
               Inl e \<Rightarrow> (Inl e, s)
             | Inr bitmap' \<Rightarrow> (Inr (current\<lparr>bitmap_ptr := bitmap'\<rparr>), s))
          else
            (case forward_loop (uids_m (deleted_record_m s)) (uid2offset_m s)
                    (timestamps_m (record_m s)) query_timestamp insert_barrier
                    (del_barrier old) del_bar bitmap of
               Inl e \<Rightarrow> (Inl e, s)
             | Inr bitmap' \<Rightarrow>
                 (Inr (current\<lparr>bitmap_ptr := bitmap'\<rparr>),
                  s\<lparr>deleted_record_m :=
                      insert_lru_entry (current\<lparr>bitmap_ptr := bitmap'\<rparr>) (deleted_record_m s)\<rparr>)))"

section \<open>Lifecycle\<close>

definition Close :: "SegmentGrowingImpl \<Rightarrow> (error + Status) \<times> SegmentGrowingImpl" where
  "Close s =
     (if reserved (record_m s) \<noteq> GetAck (ack_responder_m (record_m s))
      then (Inl (Panic ''insert not ready''), s)
      else if reserved (deleted_record_m s) \<noteq> GetAck (ack_responder_m (deleted_record_m s))
      then (Inl (Panic ''delete not ready''), s)
      else (Inr OK, s\<lparr>state_m := Closed\<rparr>))"

section \<open>Insert and Delete\<close>

text \<open>
  \<^verbatim>\<open>RowBasedRawData\<close>: the row-major input buffer, the byte length of one row and the number
  of rows. The buffer is a list of bytes, so that a \<^verbatim>\<open>memcpy\<close> that reads past its end is a
  failure of the model.
\<close>

record RowBasedRawData =
  raw_data :: "char list"
  sizeof_per_row :: int
  count :: int

fun collect :: "('a \<Rightarrow> error + 'b) \<Rightarrow> 'a list \<Rightarrow> error + 'b list" where
  "collect f [] = Inr []"
| "collect f (x # xs) =
     (case f x of
        Inl e \<Rightarrow> Inl e
      | Inr y \<Rightarrow> (case collect f xs of Inl e \<Rightarrow> Inl e | Inr ys \<Rightarrow> Inr (y # ys)))"

text \<open>
  Step 2 of \<^verbatim>\<open>Insert\<close> (source lines 133--139): the tuples \<open>(timestamp, uid, i)\<close> of the
  batch, sorted. The tuples are pairwise different (their last components are), so the
  sorted sequence does not depend on the sorting algorithm.
\<close>

definition make_ordering ::
  "int \<Rightarrow> idx_t list \<Rightarrow> Timestamp list \<Rightarrow> error + (Timestamp \<times> idx_t \<times> nat) list" where
  "make_ordering size' uids_raw timestamps_raw =
     (if size' < 0 then Inl LengthError
      else if int (length uids_raw) < size' \<or> int (length timestamps_raw) < size'
      then Inl OutOfRange
      else Inr (sort (map (\<lambda>i. (timestamps_raw ! i, uids_raw ! i, i)) [0..<nat size'])))"

text \<open>
  Step 3 (source lines 142--166): \<open>offset_infos\<close> are the prefix sums of the field widths;
  for each field, the bytes of the field are copied out of each row in the sorted order.
  Column \<open>fid\<close> is kept as the list of its elements, one per row.
\<close>

definition offset_infos :: "nat list \<Rightarrow> nat list" where
  "offset_infos sizeof_infos =
     map (\<lambda>fid. sum_list (take fid sizeof_infos)) [0..<length sizeof_infos + 1]"

definition memcpy_from :: "char list \<Rightarrow> nat \<Rightarrow> nat \<Rightarrow> error + char list" where
  "memcpy_from src_buf start len =
     (if start + len \<le> length src_buf then Inr (take len (drop start src_buf))
      else Inl OutOfRange)"

definition transpose_rows ::
  "nat list \<Rightarrow> char list \<Rightarrow> nat \<Rightarrow> (Timestamp \<times> idx_t \<times> nat) list \<Rightarrow>
   error + char list list list" where
  "transpose_rows sizeof_infos raw len_per_row ordering' =
     collect (\<lambda>fid.
        collect (\<lambda>(t, uid, order_index).
           memcpy_from raw (offset_infos sizeof_infos ! fid + order_index * len_per_row)
             (sizeof_infos ! fid)) ordering')
       [0..<length sizeof_infos]"

text \<open>Step 4, first part (source lines 169--174): the columns of the insert record.\<close>

definition fill_columns ::
  "SegmentGrowingImpl \<Rightarrow> int \<Rightarrow> Timestamp list \<Rightarrow> idx_t list \<Rightarrow> char list list list \<Rightarrow>
   SegmentGrowingImpl" where
  "fill_columns s reserved_begin timestamps uids entities =
     s\<lparr>record_m := (record_m s)
        \<lparr>timestamps_m := set_data (timestamps_m (record_m s)) reserved_begin timestamps,
         uids_m := set_data (uids_m (record_m s)) reserved_begin uids,
         entity_vec_m := (\<lambda>fid.
            if fid < length (schema_m s)
            then set_data (entity_vec_m (record_m s) fid) reserved_begin (entities ! fid)
            else entity_vec_m (record_m s) fid)\<rparr>\<rparr>"

text \<open>Step 4, last part (source lines 176--180): the uid index.\<close>

definition publish_uids :: "SegmentGrowingImpl \<Rightarrow> int \<Rightarrow> idx_t list \<Rightarrow> SegmentGrowingImpl" where
  "publish_uids s reserved_begin uids =
     s\<lparr>uid2offset_m := uid2offset_m s
          @ map (\<lambda>i. (uids ! i, reserved_begin + int i)) [0..<length uids]\<rparr>"

text \<open>
  Source lines 182--183. \<^verbatim>\<open>UpdateResourceAck\<close> belongs to the indexing record, which is
  not part of the model.
\<close>

definition acknowledge_insert :: "SegmentGrowingImpl \<Rightarrow> int \<Rightarrow> int \<Rightarrow> SegmentGrowingImpl" where
  "acknowledge_insert s reserved_begin size' =
     s\<lparr>record_m := (record_m s)
        \<lparr>ack_responder_m :=
           AddSegment reserved_begin (reserved_begin + size') (ack_responder_m (record_m s))\<rparr>\<rparr>"

definition Insert ::
  "SegmentGrowingImpl \<Rightarrow> int \<Rightarrow> int \<Rightarrow> idx_t list \<Rightarrow> Timestamp list \<Rightarrow> RowBasedRawData \<Rightarrow>
   (error + Status) \<times> SegmentGrowingImpl" where
  "Insert s reserved_begin size' uids_raw timestamps_raw entities_raw =
     (if count entities_raw \<noteq> size' then (Inl AssertFailure, s)
      else if sizeof_per_row entities_raw \<noteq> get_total_sizeof (schema_m s)
      then (Inl (SchemaMismatch (sizeof_per_row entities_raw) (get_total_sizeof (schema_m s))), s)
      else
        (case make_ordering size' uids_raw timestamps_raw of
           Inl e \<Rightarrow> (Inl e, s)
         | Inr ordering' \<Rightarrow>
             (case transpose_rows (schema_m s) (raw_data entities_raw)
                     (nat (sizeof_per_row entities_raw)) ordering' of
                Inl e \<Rightarrow> (Inl e, s)
              | Inr entities \<Rightarrow>
                  let timestamps = map fst ordering';
                      uids = map (\<lambda>x. fst (snd x)) ordering';
                      s1 = fill_columns s reserved_begin timestamps uids entities;
                      s2 = publish_uids s1 reserved_begin uids;
                      s3 = acknowledge_insert s2 reserved_begin size'
                  in (Inr OK, s3))))"

text \<open>
  The writes of \<^verbatim>\<open>Insert\<close> one at a time, in the order of the program (source lines
  169--182): the timestamps column, the uids column, one \<^verbatim>\<open>set_data_raw\<close> per field, one
  \<^verbatim>\<open>uid2offset_.insert\<close> per row, and \<^verbatim>\<open>AddSegment\<close>. \<open>Insert_trace\<close> runs the same
  checks and preparation as \<open>Insert\<close> and returns the segment after each of these
  writes; what a reader can see during the call is the segment before it or a segment
  of the trace.
\<close>

datatype insert_step = SetTimestamps | SetUids | SetField nat | InsertUid nat | AddAck

fun run_insert_step ::
  "int \<Rightarrow> int \<Rightarrow> Timestamp list \<Rightarrow> idx_t list \<Rightarrow> char list list list \<Rightarrow>
   SegmentGrowingImpl \<Rightarrow> insert_step \<Rightarrow> SegmentGrowingImpl" where
  "run_insert_step reserved_begin size' timestamps uids entities s SetTimestamps =
     s\<lparr>record_m := (record_m s)
        \<lparr>timestamps_m := set_data (timestamps_m (record_m s)) reserved_begin timestamps\<rparr>\<rparr>"
| "run_insert_step reserved_begin size' timestamps uids entities s SetUids =
     s\<lparr>record_m := (record_m s)
        \<lparr>uids_m := set_data (uids_m (record_m s)) reserved_begin uids\<rparr>\<rparr>"
| "run_insert_step reserved_begin size' timestamps uids entities s (SetField fid) =
     s\<lparr>record_m := (record_m s)
        \<lparr>entity_vec_m := (entity_vec_m (record_m s))
           (fid := set_data (entity_vec_m (record_m s) fid) reserved_begin (entities ! fid))\<rparr>\<rparr>"
| "run_insert_step reserved_begin size' timestamps uids entities s (InsertUid i) =
     s\<lparr>uid2offset_m := uid2offset_m s @ [(uids ! i, reserved_begin + int i)]\<rparr>"
| "run_insert_step reserved_begin size' timestamps uids entities s AddAck =
     acknowledge_insert s reserved_begin size'"

definition insert_steps :: "nat \<Rightarrow> nat \<Rightarrow> insert_step list" where
  "insert_steps n_fields n_uids =
     [SetTimestamps, SetUids] @ map SetField [0..<n_fields] @ map InsertUid [0..<n_uids] @ [AddAck]"

fun states_after :: "('s \<Rightarrow> 'x \<Rightarrow> 's) \<Rightarrow> 's \<Rightarrow> 'x list \<Rightarrow> 's list" where
  "states_after f s [] = []"
| "states_after f s (x # xs) = f s x # states_after f (f s x) xs"

definition Insert_trace ::
  "SegmentGrowingImpl \<Rightarrow> int \<Rightarrow> int \<Rightarrow> idx_t list \<Rightarrow> Timestamp list \<Rightarrow> RowBasedRawData \<Rightarrow>
   error + SegmentGrowingImpl list" where
  "Insert_trace s reserved_begin size' uids_raw timestamps_raw entities_raw =
     (if count entities_raw \<noteq> size' then Inl AssertFailure
      else if sizeof_per_row entities_raw \<noteq> get_total_sizeof (schema_m s)
      then Inl (SchemaMismatch (sizeof_per_row entities_raw) (get_total_sizeof (schema_m s)))
      else
        (case make_ordering size' uids_raw timestamps_raw of
           Inl e \<Rightarrow> Inl e
         | Inr ordering' \<Rightarrow>
             (case transpose_rows (schema_m s) (raw_data entities_raw)
                     (nat (sizeof_per_row entities_raw)) ordering' of
                Inl e \<Rightarrow> Inl e
              | Inr entities \<Rightarrow>
                  let timestamps = map fst ordering';
                      uids = map (\<lambda>x. fst (snd x)) ordering'
                  in Inr (states_after
                            (run_insert_step reserved_begin size' timestamps uids entities) s
                            (insert_steps (length (schema_m s)) (length uids))))))"

text \<open>The steps that write column data, as opposed to the uid index and the acknowledgment.\<close>

fun column_write :: "insert_step \<Rightarrow> bool" where
  "column_write SetTimestamps = True"
| "column_write SetUids = True"
| "column_write (SetField fid) = True"
| "column_write (InsertUid i) = False"
| "column_write AddAck = False"

text \<open>\<^verbatim>\<open>Delete\<close> (source lines 187--217).\<close>

definition Delete ::
  "SegmentGrowingImpl \<Rightarrow> int \<Rightarrow> int \<Rightarrow> idx_t list \<Rightarrow> Timestamp list \<Rightarrow>
   (error + Status) \<times> SegmentGrowingImpl" where
  "Delete s reserved_begin size' uids_raw timestamps_raw =
     (if size' < 0 then (Inl LengthError, s)
      else if int (length uids_raw) < size' \<or> int (length timestamps_raw) < size'
      then (Inl OutOfRange, s)
      else
        let ordering' = sort (map (\<lambda>i. (timestamps_raw ! i, uids_raw ! i)) [0..<nat size']);
            timestamps = map fst ordering';
            uids = map snd ordering'
        in (Inr OK,
            s\<lparr>deleted_record_m := (deleted_record_m s)
               \<lparr>ack_responder_m :=
                  AddSegment reserved_begin (reserved_begin + size')
                    (ack_responder_m (deleted_record_m s)),
                timestamps_m := set_data (timestamps_m (deleted_record_m s)) reserved_begin timestamps,
                uids_m := set_data (uids_m (deleted_record_m s)) reserved_begin uids\<rparr>\<rparr>))"

declare backward_loop.simps [simp del]
declare forward_loop.simps [simp del]

section \<open>The vocabulary of the specification\<close>

text \<open>
  The resolution rule in the specification's words: a uid resolves to the largest offset
  among the uid index entries for that uid whose timestamp is below the query timestamp
  and which lie below the insert barrier.
\<close>

definition visible_candidate ::
  "(idx_t \<times> int) list \<Rightarrow> Timestamp ConcurrentVector \<Rightarrow> Timestamp \<Rightarrow> int \<Rightarrow> idx_t \<Rightarrow> int \<Rightarrow> bool" where
  "visible_candidate u2o tss t i uid off =
     ((uid, off) \<in> set u2o \<and> off < i \<and> (\<exists>ts. tss off = Some ts \<and> ts < t))"

definition resolves_to ::
  "(idx_t \<times> int) list \<Rightarrow> Timestamp ConcurrentVector \<Rightarrow> Timestamp \<Rightarrow> int \<Rightarrow> idx_t \<Rightarrow> int \<Rightarrow> bool" where
  "resolves_to u2o tss t i uid off =
     (visible_candidate u2o tss t i uid off
      \<and> (\<forall>off'. visible_candidate u2o tss t i uid off' \<longrightarrow> off' \<le> off))"

text \<open>Some delete-log entry with index in \<open>[lo, hi)\<close> has a uid that resolves to \<open>off\<close>.\<close>

definition deleted_between ::
  "idx_t ConcurrentVector \<Rightarrow> (idx_t \<times> int) list \<Rightarrow> Timestamp ConcurrentVector \<Rightarrow>
   Timestamp \<Rightarrow> int \<Rightarrow> int \<Rightarrow> int \<Rightarrow> int \<Rightarrow> bool" where
  "deleted_between del_uids u2o tss t i lo hi off =
     (\<exists>idx uid. lo \<le> idx \<and> idx < hi \<and> del_uids idx = Some uid
        \<and> resolves_to u2o tss t i uid off)"

text \<open>
  The snapshot of the specification: bit \<open>off\<close> belongs to the snapshot \<open>(d, t, i)\<close> of a
  segment when some delete-log entry with index below \<open>d\<close> resolves to it. Offsets and
  log indices count from 0.
\<close>

definition snapshot_bit :: "SegmentGrowingImpl \<Rightarrow> int \<Rightarrow> Timestamp \<Rightarrow> int \<Rightarrow> int \<Rightarrow> bool" where
  "snapshot_bit s d t i off =
     (0 \<le> off \<and> deleted_between (uids_m (deleted_record_m s)) (uid2offset_m s)
                  (timestamps_m (record_m s)) t i 0 d off)"

text \<open>
  The condition of the fast path (source lines 51--55) and of the two reconciliation
  branches, as the claims name them.
\<close>

definition fast_path_hit :: "SegmentGrowingImpl \<Rightarrow> int \<Rightarrow> int \<Rightarrow> bool \<Rightarrow> bool" where
  "fast_path_hit s del_bar insert_barrier force =
     ((\<not> force \<or> bitmap_count (bitmap_ptr (get_lru_entry (deleted_record_m s))) = insert_barrier)
      \<and> del_barrier (get_lru_entry (deleted_record_m s)) = del_bar)"

definition takes_forward_branch :: "SegmentGrowingImpl \<Rightarrow> int \<Rightarrow> int \<Rightarrow> bool \<Rightarrow> bool" where
  "takes_forward_branch s del_bar insert_barrier force =
     (\<not> fast_path_hit s del_bar insert_barrier force
      \<and> del_barrier (get_lru_entry (deleted_record_m s)) \<le> del_bar)"

definition takes_backward_branch :: "SegmentGrowingImpl \<Rightarrow> int \<Rightarrow> int \<Rightarrow> bool \<Rightarrow> bool" where
  "takes_backward_branch s del_bar insert_barrier force =
     (\<not> fast_path_hit s del_bar insert_barrier force
      \<and> del_bar < del_barrier (get_lru_entry (deleted_record_m s)))"

text \<open>
  Sequences of reservation calls: each call is run in turn and recorded with the offset
  it returned. A call that asked for \<open>n\<close> rows and got \<open>b\<close> owns the range \<open>[b, b + n)\<close>.
\<close>

datatype reserve_call = PreInsertCall int | PreDeleteCall int

fun run_reservations ::
  "SegmentGrowingImpl \<Rightarrow> reserve_call list \<Rightarrow> (reserve_call \<times> int) list \<times> SegmentGrowingImpl" where
  "run_reservations s [] = ([], s)"
| "run_reservations s (PreInsertCall n # calls) =
     (let (b, s') = PreInsert s n; (rs, s'') = run_reservations s' calls
      in ((PreInsertCall n, b) # rs, s''))"
| "run_reservations s (PreDeleteCall n # calls) =
     (let (b, s') = PreDelete s n; (rs, s'') = run_reservations s' calls
      in ((PreDeleteCall n, b) # rs, s''))"

fun insert_ranges :: "(reserve_call \<times> int) list \<Rightarrow> (int \<times> int) list" where
  "insert_ranges [] = []"
| "insert_ranges ((PreInsertCall n, b) # rs) = (b, n) # insert_ranges rs"
| "insert_ranges ((PreDeleteCall n, b) # rs) = insert_ranges rs"

fun delete_ranges :: "(reserve_call \<times> int) list \<Rightarrow> (int \<times> int) list" where
  "delete_ranges [] = []"
| "delete_ranges ((PreInsertCall n, b) # rs) = delete_ranges rs"
| "delete_ranges ((PreDeleteCall n, b) # rs) = (b, n) # delete_ranges rs"

definition range_of :: "int \<times> int \<Rightarrow> int set" where
  "range_of r = {fst r ..< fst r + snd r}"

fun pairwise_disjoint :: "(int \<times> int) list \<Rightarrow> bool" where
  "pairwise_disjoint [] = True"
| "pairwise_disjoint (r # rs) =
     ((\<forall>r' \<in> set rs. range_of r \<inter> range_of r' = {}) \<and> pairwise_disjoint rs)"

definition call_size :: "reserve_call \<Rightarrow> int" where
  "call_size c = (case c of PreInsertCall n \<Rightarrow> n | PreDeleteCall n \<Rightarrow> n)"

definition insert_total :: "reserve_call list \<Rightarrow> int" where
  "insert_total calls = sum_list (map (\<lambda>c. case c of PreInsertCall n \<Rightarrow> n | PreDeleteCall n \<Rightarrow> 0) calls)"

definition delete_total :: "reserve_call list \<Rightarrow> int" where
  "delete_total calls = sum_list (map (\<lambda>c. case c of PreInsertCall n \<Rightarrow> 0 | PreDeleteCall n \<Rightarrow> n) calls)"

text \<open>
  The row-major input in the specification's words: field \<open>fid\<close> of row \<open>j\<close> is the
  \<open>sizeof_infos ! fid\<close> bytes that start at the field's offset within row \<open>j\<close>.
\<close>

definition row_field :: "nat list \<Rightarrow> char list \<Rightarrow> nat \<Rightarrow> nat \<Rightarrow> nat \<Rightarrow> char list" where
  "row_field sizeof_infos raw len_per_row j fid =
     take (sizeof_infos ! fid) (drop (sum_list (take fid sizeof_infos) + j * len_per_row) raw)"

section \<open>Example segments\<close>

text \<open>
  Segments built by the operations themselves, used to evaluate the code on concrete
  inputs. \<open>inserted_segment\<close> and \<open>scenario_segment\<close> are the scenario of the
  specification: three rows with uids 1, 2, 1 and timestamps 10, 20, 30 (uid 1 is
  upserted at 30), then a delete of uid 1 at timestamp 40. The schema has no field, so
  a row has no bytes.
\<close>

definition no_rows :: "int \<Rightarrow> RowBasedRawData" where
  "no_rows n = \<lparr>raw_data = [], sizeof_per_row = 0, count = n\<rparr>"

definition inserted_segment :: SegmentGrowingImpl where
  "inserted_segment =
     (let s0 = new_segment [];
          s1 = snd (PreInsert s0 3)
      in snd (Insert s1 0 3 [1, 2, 1] [10, 20, 30] (no_rows 3)))"

definition scenario_segment :: SegmentGrowingImpl where
  "scenario_segment =
     (let s1 = snd (PreDelete inserted_segment 1)
      in snd (Delete s1 0 1 [1] [40]))"

text \<open>
  The scenario after a first query at timestamp 20, which leaves its result in the cache.
\<close>

definition stale_segment :: SegmentGrowingImpl where
  "stale_segment = snd (get_deleted_bitmap scenario_segment 1 20 3 False)"

text \<open>
  The same rows with a delete log of two entries, queried once at delete barrier 1:
  the log deletes uids 1 and 2 in \<open>two_deletes_segment\<close> and uid 1 twice in
  \<open>dup_segment\<close>.
\<close>

definition two_deletes_segment :: SegmentGrowingImpl where
  "two_deletes_segment =
     (let s1 = snd (PreDelete inserted_segment 2);
          s2 = snd (Delete s1 0 2 [1, 2] [40, 41])
      in snd (get_deleted_bitmap s2 1 50 3 False))"

definition dup_segment :: SegmentGrowingImpl where
  "dup_segment =
     (let s1 = snd (PreDelete inserted_segment 2);
          s2 = snd (Delete s1 0 2 [1, 1] [40, 41])
      in snd (get_deleted_bitmap s2 1 50 3 False))"

text \<open>
  Both after a further query at delete barrier 2, which leaves the bitmap of barrier 2
  in the cache.
\<close>

definition two_deletes_forward_segment :: SegmentGrowingImpl where
  "two_deletes_forward_segment = snd (get_deleted_bitmap two_deletes_segment 2 50 3 False)"

definition dup_forward_segment :: SegmentGrowingImpl where
  "dup_forward_segment = snd (get_deleted_bitmap dup_segment 2 50 3 False)"

text \<open>
  One row of uid 1 at timestamp 30, a delete of uid 1, a query at delete barrier 1 and
  insert barrier 1, and then a second row of uid 1 that arrives with the older timestamp
  10 and gets offset 1.
\<close>

definition late_row_segment :: SegmentGrowingImpl where
  "late_row_segment =
     (let s0 = new_segment [];
          s1 = snd (PreInsert s0 1);
          s2 = snd (Insert s1 0 1 [1] [30] (no_rows 1));
          s3 = snd (PreDelete s2 1);
          s4 = snd (Delete s3 0 1 [1] [40]);
          s5 = snd (get_deleted_bitmap s4 1 50 1 False);
          s6 = snd (PreInsert s5 1)
      in snd (Insert s6 1 1 [1] [10] (no_rows 1)))"

text \<open>
  A schema of a 2-byte and a 1-byte field, and a batch of three rows \<open>ab|c\<close>,
  \<open>de|f\<close>, \<open>gh|i\<close> whose timestamps 30, 20, 10 arrive in decreasing order.
\<close>

definition three_rows :: RowBasedRawData where
  "three_rows = \<lparr>raw_data = ''abcdefghi'', sizeof_per_row = 3, count = 3\<rparr>"

definition reserved_segment :: SegmentGrowingImpl where
  "reserved_segment = snd (PreInsert (new_segment [2, 1]) 3)"

definition filled_segment :: SegmentGrowingImpl where
  "filled_segment = snd (Insert reserved_segment 0 3 [1, 2, 1] [30, 20, 10] three_rows)"

section \<open>Auxiliary lemmas\<close>

subsection \<open>Evaluation of the example segments\<close>

lemmas eval_defs = Let_def PreInsert_def PreDelete_def fetch_add_def Insert_def Delete_def
  new_segment_def no_rows_def make_ordering_def transpose_rows_def get_total_sizeof_def
  fill_columns_def publish_uids_def acknowledge_insert_def upt_conv_Cons less_eq_prod_def
  AddSegment_def empty_ack_def

lemmas query_defs = get_deleted_bitmap_def get_lru_entry_def insert_lru_entry_def
  Let_def clone_def forward_loop.simps backward_loop.simps equal_range_def bitmap_set_def
  bitmap_clear_def bitmap_count_def eval_nat_numeral

lemmas seg_defs = inserted_segment_def two_deletes_segment_def dup_segment_def late_row_segment_def

lemma scenario_u2o: "uid2offset_m scenario_segment = [(1, 0), (2, 1), (1, 2)]"
  by (simp add: scenario_segment_def inserted_segment_def eval_defs)

lemma scenario_tss: "timestamps_m (record_m scenario_segment) = [0 \<mapsto> 10, 1 \<mapsto> 20, 2 \<mapsto> 30]"
  by (simp add: scenario_segment_def inserted_segment_def eval_defs)

lemma scenario_del: "uids_m (deleted_record_m scenario_segment) = [0 \<mapsto> 1]"
  by (simp add: scenario_segment_def inserted_segment_def eval_defs)

lemma scenario_lru: "lru_m (deleted_record_m scenario_segment) = \<lparr>del_barrier = 0, bitmap_ptr = []\<rparr>"
  by (simp add: scenario_segment_def inserted_segment_def eval_defs)

lemma scenario_query:
  "fst (get_deleted_bitmap scenario_segment 1 50 3 False) = Inr \<lparr>del_barrier = 1, bitmap_ptr = [False, False, True]\<rparr>"
  by (simp add: get_deleted_bitmap_def get_lru_entry_def scenario_u2o scenario_tss scenario_del scenario_lru
      Let_def clone_def forward_loop.simps equal_range_def bitmap_set_def bitmap_count_def eval_nat_numeral)

lemma scenario_query2:
  "fst (get_deleted_bitmap scenario_segment 1 20 3 False) = Inr \<lparr>del_barrier = 1, bitmap_ptr = [True, False, False]\<rparr>"
  by (simp add: get_deleted_bitmap_def get_lru_entry_def scenario_u2o scenario_tss scenario_del scenario_lru
      Let_def clone_def forward_loop.simps equal_range_def bitmap_set_def bitmap_count_def eval_nat_numeral)

lemma stale_u2o: "uid2offset_m stale_segment = [(1, 0), (2, 1), (1, 2)]"
  by (simp add: stale_segment_def query_defs scenario_u2o scenario_tss scenario_del scenario_lru)

lemma stale_tss: "timestamps_m (record_m stale_segment) = [0 \<mapsto> 10, 1 \<mapsto> 20, 2 \<mapsto> 30]"
  by (simp add: stale_segment_def query_defs scenario_u2o scenario_tss scenario_del scenario_lru)

lemma stale_del: "uids_m (deleted_record_m stale_segment) = [0 \<mapsto> 1]"
  by (simp add: stale_segment_def query_defs scenario_u2o scenario_tss scenario_del scenario_lru)

lemma stale_lru:
  "lru_m (deleted_record_m stale_segment) = \<lparr>del_barrier = 1, bitmap_ptr = [True, False, False]\<rparr>"
  by (simp add: stale_segment_def query_defs scenario_u2o scenario_tss scenario_del scenario_lru)

lemma two_deletes_parts:
  "uid2offset_m two_deletes_segment = [(1, 0), (2, 1), (1, 2)]"
  "timestamps_m (record_m two_deletes_segment) = [0 \<mapsto> 10, 1 \<mapsto> 20, 2 \<mapsto> 30]"
  "uids_m (deleted_record_m two_deletes_segment) = [0 \<mapsto> 1, 1 \<mapsto> 2]"
  "lru_m (deleted_record_m two_deletes_segment) = \<lparr>del_barrier = 1, bitmap_ptr = [False, False, True]\<rparr>"
  by (simp_all add: seg_defs eval_defs query_defs)

lemma dup_parts:
  "uid2offset_m dup_segment = [(1, 0), (2, 1), (1, 2)]"
  "timestamps_m (record_m dup_segment) = [0 \<mapsto> 10, 1 \<mapsto> 20, 2 \<mapsto> 30]"
  "uids_m (deleted_record_m dup_segment) = [0 \<mapsto> 1, 1 \<mapsto> 1]"
  "lru_m (deleted_record_m dup_segment) = \<lparr>del_barrier = 1, bitmap_ptr = [False, False, True]\<rparr>"
  by (simp_all add: seg_defs eval_defs query_defs)

lemma late_row_parts:
  "uid2offset_m late_row_segment = [(1, 0), (1, 1)]"
  "timestamps_m (record_m late_row_segment) = [0 \<mapsto> 30, 1 \<mapsto> 10]"
  "uids_m (deleted_record_m late_row_segment) = [0 \<mapsto> 1]"
  "lru_m (deleted_record_m late_row_segment) = \<lparr>del_barrier = 1, bitmap_ptr = [True]\<rparr>"
  by (simp_all add: seg_defs eval_defs query_defs)

lemma inserted_parts:
  "reserved (record_m inserted_segment) = 3"
  "segments_m (ack_responder_m (record_m inserted_segment)) = [(0, 3)]"
  "reserved (deleted_record_m inserted_segment) = 0"
  "segments_m (ack_responder_m (deleted_record_m inserted_segment)) = []"
  by (simp_all add: seg_defs eval_defs signed_take_bit_int_eq_self)

lemma two_deletes_forward_parts:
  "uid2offset_m two_deletes_forward_segment = [(1, 0), (2, 1), (1, 2)]"
  "timestamps_m (record_m two_deletes_forward_segment) = [0 \<mapsto> 10, 1 \<mapsto> 20, 2 \<mapsto> 30]"
  "uids_m (deleted_record_m two_deletes_forward_segment) = [0 \<mapsto> 1, 1 \<mapsto> 2]"
  "lru_m (deleted_record_m two_deletes_forward_segment)
     = \<lparr>del_barrier = 2, bitmap_ptr = [False, True, True]\<rparr>"
  by (simp_all add: two_deletes_forward_segment_def query_defs two_deletes_parts)

lemma dup_forward_parts:
  "uid2offset_m dup_forward_segment = [(1, 0), (2, 1), (1, 2)]"
  "timestamps_m (record_m dup_forward_segment) = [0 \<mapsto> 10, 1 \<mapsto> 20, 2 \<mapsto> 30]"
  "uids_m (deleted_record_m dup_forward_segment) = [0 \<mapsto> 1, 1 \<mapsto> 1]"
  "lru_m (deleted_record_m dup_forward_segment)
     = \<lparr>del_barrier = 2, bitmap_ptr = [False, False, True]\<rparr>"
  by (simp_all add: dup_forward_segment_def query_defs dup_parts)

subsection \<open>Bitmaps\<close>

lemma bitmap_test_set:
  "bitmap_test (bitmap_set bm k) off = (bitmap_test bm off \<or> (off = k \<and> 0 \<le> k \<and> k < int (length bm)))"
  by (cases "nat k = nat off") (auto simp: bitmap_test_def bitmap_set_def nth_list_update)

lemma bitmap_test_clear:
  "bitmap_test (bitmap_clear bm k) off = (bitmap_test bm off \<and> off \<noteq> k)"
  by (cases "nat k = nat off") (auto simp: bitmap_test_def bitmap_clear_def nth_list_update)

lemma length_bitmap_set [simp]: "length (bitmap_set bm k) = length bm"
  by (simp add: bitmap_set_def)

lemma length_bitmap_clear [simp]: "length (bitmap_clear bm k) = length bm"
  by (simp add: bitmap_clear_def)

lemma clone_length [simp]: "length (bitmap_ptr (clone e cap)) = nat cap"
  by (simp add: clone_def)

lemma clone_del_barrier [simp]: "del_barrier (clone e cap) = del_barrier e"
  by (simp add: clone_def)

lemma clone_test:
  "bitmap_test (bitmap_ptr (clone e cap)) off = (bitmap_test (bitmap_ptr e) off \<and> off < cap)"
  by (auto simp: clone_def bitmap_test_def nth_append)

lemma clone_same_length: "length (bitmap_ptr e) = nat cap \<Longrightarrow> bitmap_ptr (clone e cap) = bitmap_ptr e"
  by (simp add: clone_def)

lemma bitmap_test_three:
  "bitmap_test [a, b, c] off \<longleftrightarrow> (off = 0 \<and> a) \<or> (off = 1 \<and> b) \<or> (off = 2 \<and> c)"
proof (cases "0 \<le> off \<and> off < 3")
  case True
  then have "off = 0 \<or> off = 1 \<or> off = 2" by auto
  then show ?thesis by (auto simp: bitmap_test_def)
next
  case False
  then show ?thesis by (auto simp: bitmap_test_def)
qed

subsection \<open>The candidate scans\<close>

lemma scan_forward_result:
  "scan_forward tss t ib offs acc = Inr r \<Longrightarrow>
     acc \<le> r \<and> (r = acc \<or> (r \<in> set offs \<and> r < ib \<and> (\<exists>ts. tss r = Some ts \<and> ts < t)))
     \<and> (\<forall>off \<in> set offs. off < ib \<and> (\<exists>ts. tss off = Some ts \<and> ts < t) \<longrightarrow> off \<le> r)"
proof (induction offs arbitrary: acc)
  case Nil
  then show ?case by simp
next
  case (Cons a offs)
  show ?case
  proof (cases "a \<ge> ib")
    case True
    with Cons.prems have "scan_forward tss t ib offs acc = Inr r" by simp
    from Cons.IH[OF this] True show ?thesis by auto
  next
    case False
    then obtain ts where ts: "tss a = Some ts"
      using Cons.prems by (auto split: option.splits)
    show ?thesis
    proof (cases "ts < t")
      case True
      with Cons.prems False ts have "scan_forward tss t ib offs (max acc a) = Inr r" by simp
      from Cons.IH[OF this] True False ts show ?thesis by auto
    next
      case F2: False
      with Cons.prems False ts have "scan_forward tss t ib offs acc = Inr r" by simp
      from Cons.IH[OF this] F2 False ts show ?thesis by auto
    qed
  qed
qed

lemma scan_forward_total:
  "(\<forall>off \<in> set offs. off < ib \<longrightarrow> tss off \<noteq> None) \<Longrightarrow> \<exists>r. scan_forward tss t ib offs acc = Inr r"
  by (induction offs arbitrary: acc) auto

lemma scan_backward_eq_forward:
  "(\<forall>off \<in> set offs. tss off \<noteq> None) \<Longrightarrow>
   (\<forall>off \<in> set offs. \<forall>ts. tss off = Some ts \<and> ts < t \<longrightarrow> off < ib) \<Longrightarrow>
   scan_backward tss t ib offs acc = scan_forward tss t ib offs acc"
  by (induction offs arbitrary: acc) (auto split: option.splits)

lemma set_equal_range: "set (equal_range u2o uid) = {off. (uid, off) \<in> set u2o}"
  by (auto simp: equal_range_def image_iff)

lemma scan_forward_resolves:
  assumes "scan_forward tss t ib (equal_range u2o uid) (- 1) = Inr r" and "0 \<le> off"
  shows "resolves_to u2o tss t ib uid off \<longleftrightarrow> r = off"
proof -
  note R = scan_forward_result[OF assms(1), unfolded set_equal_range]
  show ?thesis
  proof
    assume res: "resolves_to u2o tss t ib uid off"
    then have v: "visible_candidate u2o tss t ib uid off"
      and mx: "\<And>off'. visible_candidate u2o tss t ib uid off' \<Longrightarrow> off' \<le> off"
      by (auto simp: resolves_to_def)
    from v R have "off \<le> r" by (auto simp: visible_candidate_def)
    with assms(2) have "r \<noteq> - 1" by auto
    with R have "visible_candidate u2o tss t ib uid r" by (auto simp: visible_candidate_def)
    from mx[OF this] \<open>off \<le> r\<close> show "r = off" by simp
  next
    assume "r = off"
    with assms(2) have "r \<noteq> - 1" by auto
    with R have "visible_candidate u2o tss t ib uid r" by (auto simp: visible_candidate_def)
    moreover have "\<And>off'. visible_candidate u2o tss t ib uid off' \<Longrightarrow> off' \<le> r"
      using R by (auto simp: visible_candidate_def)
    ultimately show "resolves_to u2o tss t ib uid off"
      using \<open>r = off\<close> by (auto simp: resolves_to_def)
  qed
qed

subsection \<open>The delete-log loops\<close>

lemma deleted_between_step:
  assumes "di < stop" and "du di = Some uid"
  shows "deleted_between du u2o tss t ib di stop off \<longleftrightarrow>
           resolves_to u2o tss t ib uid off \<or> deleted_between du u2o tss t ib (di + 1) stop off"
proof
  assume "deleted_between du u2o tss t ib di stop off"
  then obtain idx u where h: "di \<le> idx" "idx < stop" "du idx = Some u" "resolves_to u2o tss t ib u off"
    by (auto simp: deleted_between_def)
  show "resolves_to u2o tss t ib uid off \<or> deleted_between du u2o tss t ib (di + 1) stop off"
  proof (cases "idx = di")
    case True
    with h assms show ?thesis by simp
  next
    case False
    with h have "di + 1 \<le> idx" by simp
    with h show ?thesis by (auto simp: deleted_between_def)
  qed
next
  assume "resolves_to u2o tss t ib uid off \<or> deleted_between du u2o tss t ib (di + 1) stop off"
  then show "deleted_between du u2o tss t ib di stop off"
  proof
    assume "resolves_to u2o tss t ib uid off"
    with assms show ?thesis by (auto simp: deleted_between_def)
  next
    assume "deleted_between du u2o tss t ib (di + 1) stop off"
    then obtain idx u where "di + 1 \<le> idx" "idx < stop" "du idx = Some u"
        "resolves_to u2o tss t ib u off"
      by (auto simp: deleted_between_def)
    then have "di \<le> idx \<and> idx < stop \<and> du idx = Some u \<and> resolves_to u2o tss t ib u off"
      by simp
    then show ?thesis unfolding deleted_between_def by blast
  qed
qed

lemma deleted_between_empty: "stop \<le> di \<Longrightarrow> \<not> deleted_between du u2o tss t ib di stop off"
  by (auto simp: deleted_between_def)

lemma deleted_between_split:
  assumes "lo \<le> mid" and "mid \<le> hi"
  shows "deleted_between du u2o tss t ib lo hi off \<longleftrightarrow>
           deleted_between du u2o tss t ib lo mid off \<or> deleted_between du u2o tss t ib mid hi off"
proof
  assume "deleted_between du u2o tss t ib lo hi off"
  then obtain idx u where h: "lo \<le> idx" "idx < hi" "du idx = Some u" "resolves_to u2o tss t ib u off"
    by (auto simp: deleted_between_def)
  show "deleted_between du u2o tss t ib lo mid off \<or> deleted_between du u2o tss t ib mid hi off"
  proof (cases "idx < mid")
    case True
    with h show ?thesis unfolding deleted_between_def by blast
  next
    case False
    then have "mid \<le> idx" by simp
    with h show ?thesis unfolding deleted_between_def by blast
  qed
next
  assume "deleted_between du u2o tss t ib lo mid off \<or> deleted_between du u2o tss t ib mid hi off"
  then show "deleted_between du u2o tss t ib lo hi off"
  proof
    assume "deleted_between du u2o tss t ib lo mid off"
    then obtain idx u where h: "lo \<le> idx" "idx < mid" "du idx = Some u"
        "resolves_to u2o tss t ib u off"
      by (auto simp: deleted_between_def)
    with assms have "lo \<le> idx \<and> idx < hi \<and> du idx = Some u \<and> resolves_to u2o tss t ib u off"
      by simp
    then show ?thesis unfolding deleted_between_def by blast
  next
    assume "deleted_between du u2o tss t ib mid hi off"
    then obtain idx u where h: "mid \<le> idx" "idx < hi" "du idx = Some u"
        "resolves_to u2o tss t ib u off"
      by (auto simp: deleted_between_def)
    with assms have "lo \<le> idx \<and> idx < hi \<and> du idx = Some u \<and> resolves_to u2o tss t ib u off"
      by simp
    then show ?thesis unfolding deleted_between_def by blast
  qed
qed

lemma resolves_to_below: "resolves_to u2o tss t ib uid off \<Longrightarrow> off < ib"
  by (simp add: resolves_to_def visible_candidate_def)

lemma deleted_between_below: "deleted_between du u2o tss t ib lo hi off \<Longrightarrow> off < ib"
  by (auto simp: deleted_between_def dest: resolves_to_below)

lemma forward_loop_done: "stop \<le> di \<Longrightarrow> forward_loop du u2o tss t ib di stop bm = Inr bm"
  by (simp add: forward_loop.simps)

lemma forward_loop_bits:
  "forward_loop du u2o tss t ib di stop bm = Inr bm' \<Longrightarrow> length bm = nat ib \<Longrightarrow>
     length bm' = length bm
     \<and> (\<forall>off. bitmap_test bm' off \<longleftrightarrow>
            bitmap_test bm off \<or> (0 \<le> off \<and> deleted_between du u2o tss t ib di stop off))"
proof (induction du u2o tss t ib di stop bm rule: forward_loop.induct)
  case (1 du u2o tss t ib di stop bm)
  show ?case
  proof (cases "di < stop")
    case False
    with "1.prems" have "bm' = bm" by (simp add: forward_loop.simps)
    with False show ?thesis by (simp add: deleted_between_empty)
  next
    case True
    from "1.prems"(1) True obtain uid where uid: "du di = Some uid"
      by (subst (asm) forward_loop.simps) (auto split: option.splits)
    from "1.prems"(1) True uid obtain r
      where r: "scan_forward tss t ib (equal_range u2o uid) (- 1) = Inr r"
      by (subst (asm) forward_loop.simps) (auto split: sum.splits)
    have step: "\<And>off. deleted_between du u2o tss t ib di stop off \<longleftrightarrow>
           resolves_to u2o tss t ib uid off \<or> deleted_between du u2o tss t ib (di + 1) stop off"
      using True uid by (rule deleted_between_step)
    note res = scan_forward_resolves[OF r]
    show ?thesis
    proof (cases "r = - 1")
      case T: True
      with "1.prems"(1) True uid r
      have run: "forward_loop du u2o tss t ib (di + 1) stop bm = Inr bm'"
        by (subst (asm) forward_loop.simps) simp
      from "1.IH"(1)[OF True uid r T run "1.prems"(2)] step res T
      show ?thesis by auto
    next
      case F: False
      with "1.prems"(1) True uid r
      have run: "forward_loop du u2o tss t ib (di + 1) stop (bitmap_set bm r) = Inr bm'"
        by (subst (asm) forward_loop.simps) simp
      from scan_forward_result[OF r] F have rng: "0 \<le> r" "r < ib" by auto
      with "1.prems"(2) have inb: "r < int (length bm)" by simp
      have len: "length (bitmap_set bm r) = nat ib" using "1.prems"(2) by simp
      from "1.IH"(2)[OF True uid r F run len] step res rng inb
      show ?thesis by (auto simp: bitmap_test_set)
    qed
  qed
qed

lemma forward_loop_total:
  "(\<forall>idx. di \<le> idx \<and> idx < stop \<longrightarrow> du idx \<noteq> None) \<Longrightarrow>
   (\<forall>p \<in> set u2o. snd p < ib \<longrightarrow> tss (snd p) \<noteq> None) \<Longrightarrow>
   \<exists>bm'. forward_loop du u2o tss t ib di stop bm = Inr bm'"
proof (induction du u2o tss t ib di stop bm rule: forward_loop.induct)
  case (1 du u2o tss t ib di stop bm)
  show ?case
  proof (cases "di < stop")
    case False
    then show ?thesis by (simp add: forward_loop.simps)
  next
    case True
    with "1.prems"(1) obtain uid where uid: "du di = Some uid" by force
    have "\<forall>off \<in> set (equal_range u2o uid). off < ib \<longrightarrow> tss off \<noteq> None"
      using "1.prems"(2) by (auto simp: set_equal_range)
    from scan_forward_total[OF this] obtain r
      where r: "scan_forward tss t ib (equal_range u2o uid) (- 1) = Inr r" by blast
    have rest: "\<forall>idx. di + 1 \<le> idx \<and> idx < stop \<longrightarrow> du idx \<noteq> None"
      using "1.prems"(1) by auto
    show ?thesis
    proof (cases "r = - 1")
      case T: True
      from "1.IH"(1)[OF True uid r T rest "1.prems"(2)] True uid r T
      show ?thesis by (subst forward_loop.simps) simp
    next
      case F: False
      from "1.IH"(2)[OF True uid r F rest "1.prems"(2)] True uid r F
      show ?thesis by (subst forward_loop.simps) simp
    qed
  qed
qed

lemma backward_loop_bits:
  "backward_loop du u2o tss t ib di stop bm = Inr bm' \<Longrightarrow>
   (\<forall>p \<in> set u2o. tss (snd p) \<noteq> None) \<Longrightarrow>
   (\<forall>p \<in> set u2o. \<forall>ts. tss (snd p) = Some ts \<and> ts < t \<longrightarrow> snd p < ib) \<Longrightarrow>
     length bm' = length bm
     \<and> (\<forall>off. bitmap_test bm' off \<longleftrightarrow>
            bitmap_test bm off \<and> \<not> (0 \<le> off \<and> deleted_between du u2o tss t ib di stop off))"
proof (induction du u2o tss t ib di stop bm rule: backward_loop.induct)
  case (1 du u2o tss t ib di stop bm)
  show ?case
  proof (cases "di < stop")
    case False
    with "1.prems" have "bm' = bm" by (simp add: backward_loop.simps)
    with False show ?thesis by (simp add: deleted_between_empty)
  next
    case True
    from "1.prems"(1) True obtain uid where uid: "du di = Some uid"
      by (subst (asm) backward_loop.simps) (auto split: option.splits)
    from "1.prems"(1) True uid obtain r
      where r: "scan_backward tss t ib (equal_range u2o uid) (- 1) = Inr r"
      by (subst (asm) backward_loop.simps) (auto split: sum.splits)
    have c1: "\<forall>off \<in> set (equal_range u2o uid). tss off \<noteq> None"
      using "1.prems"(2) by (auto simp: set_equal_range)
    have c2: "\<forall>off \<in> set (equal_range u2o uid). \<forall>ts. tss off = Some ts \<and> ts < t \<longrightarrow> off < ib"
      using "1.prems"(3) by (auto simp: set_equal_range)
    have rf: "scan_forward tss t ib (equal_range u2o uid) (- 1) = Inr r"
      using scan_backward_eq_forward[OF c1 c2] r by simp
    have step: "\<And>off. deleted_between du u2o tss t ib di stop off \<longleftrightarrow>
           resolves_to u2o tss t ib uid off \<or> deleted_between du u2o tss t ib (di + 1) stop off"
      using True uid by (rule deleted_between_step)
    note res = scan_forward_resolves[OF rf]
    show ?thesis
    proof (cases "r = - 1")
      case T: True
      with "1.prems"(1) True uid r
      have run: "backward_loop du u2o tss t ib (di + 1) stop bm = Inr bm'"
        by (subst (asm) backward_loop.simps) simp
      from "1.IH"(1)[OF True uid r T run "1.prems"(2,3)] step res T
      show ?thesis by auto
    next
      case F: False
      with "1.prems"(1) True uid r
      have run: "backward_loop du u2o tss t ib (di + 1) stop (bitmap_clear bm r) = Inr bm'"
        by (subst (asm) backward_loop.simps) simp
      from scan_forward_result[OF rf] F have rng: "0 \<le> r" by auto
      from "1.IH"(2)[OF True uid r F run "1.prems"(2,3)] step res rng
      show ?thesis by (auto simp: bitmap_test_clear)
    qed
  qed
qed

lemma backward_loop_total:
  "(\<forall>idx. di \<le> idx \<and> idx < stop \<longrightarrow> du idx \<noteq> None) \<Longrightarrow>
   (\<forall>p \<in> set u2o. tss (snd p) \<noteq> None) \<Longrightarrow>
   (\<forall>p \<in> set u2o. \<forall>ts. tss (snd p) = Some ts \<and> ts < t \<longrightarrow> snd p < ib) \<Longrightarrow>
   \<exists>bm'. backward_loop du u2o tss t ib di stop bm = Inr bm'"
proof (induction du u2o tss t ib di stop bm rule: backward_loop.induct)
  case (1 du u2o tss t ib di stop bm)
  show ?case
  proof (cases "di < stop")
    case False
    then show ?thesis by (simp add: backward_loop.simps)
  next
    case True
    with "1.prems"(1) obtain uid where uid: "du di = Some uid" by force
    have c1: "\<forall>off \<in> set (equal_range u2o uid). tss off \<noteq> None"
      using "1.prems"(2) by (auto simp: set_equal_range)
    have c2: "\<forall>off \<in> set (equal_range u2o uid). \<forall>ts. tss off = Some ts \<and> ts < t \<longrightarrow> off < ib"
      using "1.prems"(3) by (auto simp: set_equal_range)
    have "\<forall>off \<in> set (equal_range u2o uid). off < ib \<longrightarrow> tss off \<noteq> None"
      using c1 by simp
    from scan_forward_total[OF this] obtain r
      where rf: "scan_forward tss t ib (equal_range u2o uid) (- 1) = Inr r" by blast
    have r: "scan_backward tss t ib (equal_range u2o uid) (- 1) = Inr r"
      using scan_backward_eq_forward[OF c1 c2] rf by simp
    have rest: "\<forall>idx. di + 1 \<le> idx \<and> idx < stop \<longrightarrow> du idx \<noteq> None"
      using "1.prems"(1) by auto
    show ?thesis
    proof (cases "r = - 1")
      case T: True
      from "1.IH"(1)[OF True uid r T rest "1.prems"(2,3)] True uid r T
      show ?thesis by (subst backward_loop.simps) simp
    next
      case F: False
      from "1.IH"(2)[OF True uid r F rest "1.prems"(2,3)] True uid r F
      show ?thesis by (subst backward_loop.simps) simp
    qed
  qed
qed

lemma scenario_resolution_50:
  "deleted_between [0 \<mapsto> 1] [(1, 0), (2, 1), (1, 2)] [0 \<mapsto> 10, 1 \<mapsto> 20, 2 \<mapsto> 30] 50 3 0 1 2"
proof -
  have "resolves_to [(1, 0), (2, 1), (1, 2)] [0 \<mapsto> 10, 1 \<mapsto> 20, 2 \<mapsto> 30] 50 3 1 2"
    by (auto simp: resolves_to_def visible_candidate_def)
  then have "(0::int) \<le> 0 \<and> (0::int) < 1 \<and> [0 \<mapsto> 1::int] (0::int) = Some 1
      \<and> resolves_to [(1, 0), (2, 1), (1, 2)] [0 \<mapsto> 10, 1 \<mapsto> 20, 2 \<mapsto> 30] 50 3 1 2"
    by simp
  then show ?thesis unfolding deleted_between_def by blast
qed

subsection \<open>Snapshots of the example segments\<close>

lemma scenario_rows_visible:
  "visible_candidate [(1, 0), (2, 1), (1, 2)] [0 \<mapsto> 10, 1 \<mapsto> 20, 2 \<mapsto> 30] 50 3 1 off
     \<longleftrightarrow> off = 0 \<or> off = 2"
  "visible_candidate [(1, 0), (2, 1), (1, 2)] [0 \<mapsto> 10, 1 \<mapsto> 20, 2 \<mapsto> 30] 50 3 2 off
     \<longleftrightarrow> off = 1"
  by (auto simp: visible_candidate_def)

lemma scenario_rows_resolve:
  "resolves_to [(1, 0), (2, 1), (1, 2)] [0 \<mapsto> 10, 1 \<mapsto> 20, 2 \<mapsto> 30] 50 3 1 off \<longleftrightarrow> off = 2"
  "resolves_to [(1, 0), (2, 1), (1, 2)] [0 \<mapsto> 10, 1 \<mapsto> 20, 2 \<mapsto> 30] 50 3 2 off \<longleftrightarrow> off = 1"
proof -
  have "(off = 0 \<or> off = 2) \<and> (\<forall>off'. off' = 0 \<or> off' = 2 \<longrightarrow> off' \<le> off) \<longleftrightarrow> off = 2"
  proof
    assume a: "(off = 0 \<or> off = 2) \<and> (\<forall>off'. off' = 0 \<or> off' = 2 \<longrightarrow> off' \<le> off)"
    then have "2 \<le> off" by blast
    with a show "off = 2" by auto
  qed auto
  then show "resolves_to [(1, 0), (2, 1), (1, 2)] [0 \<mapsto> 10, 1 \<mapsto> 20, 2 \<mapsto> 30] 50 3 1 off
      \<longleftrightarrow> off = 2"
    unfolding resolves_to_def scenario_rows_visible by simp
  show "resolves_to [(1, 0), (2, 1), (1, 2)] [0 \<mapsto> 10, 1 \<mapsto> 20, 2 \<mapsto> 30] 50 3 2 off
      \<longleftrightarrow> off = 1"
    unfolding resolves_to_def scenario_rows_visible by auto
qed

lemma deleted_between_one:
  "deleted_between du u2o tss t i lo (lo + 1) off
     \<longleftrightarrow> (\<exists>uid. du lo = Some uid \<and> resolves_to u2o tss t i uid off)"
proof -
  have "lo \<le> idx \<and> idx < lo + 1 \<longleftrightarrow> idx = lo" for idx :: int by auto
  then show ?thesis unfolding deleted_between_def by auto
qed

lemma two_deletes_snapshots:
  "deleted_between [0 \<mapsto> 1, 1 \<mapsto> 2] [(1, 0), (2, 1), (1, 2)] [0 \<mapsto> 10, 1 \<mapsto> 20, 2 \<mapsto> 30]
     50 3 0 1 off \<longleftrightarrow> off = 2"
  "deleted_between [0 \<mapsto> 1, 1 \<mapsto> 2] [(1, 0), (2, 1), (1, 2)] [0 \<mapsto> 10, 1 \<mapsto> 20, 2 \<mapsto> 30]
     50 3 1 2 off \<longleftrightarrow> off = 1"
  "deleted_between [0 \<mapsto> 1, 1 \<mapsto> 2] [(1, 0), (2, 1), (1, 2)] [0 \<mapsto> 10, 1 \<mapsto> 20, 2 \<mapsto> 30]
     50 3 0 2 off \<longleftrightarrow> off = 1 \<or> off = 2"
proof -
  show a: "deleted_between [0 \<mapsto> 1, 1 \<mapsto> 2] [(1, 0), (2, 1), (1, 2)] [0 \<mapsto> 10, 1 \<mapsto> 20, 2 \<mapsto> 30]
     50 3 0 1 off \<longleftrightarrow> off = 2"
    using deleted_between_one[of "[0 \<mapsto> 1, 1 \<mapsto> 2]" _ _ _ _ 0 off]
    by (simp add: scenario_rows_resolve)
  show b: "deleted_between [0 \<mapsto> 1, 1 \<mapsto> 2] [(1, 0), (2, 1), (1, 2)] [0 \<mapsto> 10, 1 \<mapsto> 20, 2 \<mapsto> 30]
     50 3 1 2 off \<longleftrightarrow> off = 1"
    using deleted_between_one[of "[0 \<mapsto> 1, 1 \<mapsto> 2]" _ _ _ _ 1 off]
    by (simp add: scenario_rows_resolve)
  show "deleted_between [0 \<mapsto> 1, 1 \<mapsto> 2] [(1, 0), (2, 1), (1, 2)] [0 \<mapsto> 10, 1 \<mapsto> 20, 2 \<mapsto> 30]
     50 3 0 2 off \<longleftrightarrow> off = 1 \<or> off = 2"
    using deleted_between_split[of 0 1 2 "[0 \<mapsto> 1, 1 \<mapsto> 2]" _ _ _ _ off] a b by auto
qed

lemma dup_snapshots:
  "deleted_between [0 \<mapsto> 1, 1 \<mapsto> 1] [(1, 0), (2, 1), (1, 2)] [0 \<mapsto> 10, 1 \<mapsto> 20, 2 \<mapsto> 30]
     50 3 0 1 off \<longleftrightarrow> off = 2"
  "deleted_between [0 \<mapsto> 1, 1 \<mapsto> 1] [(1, 0), (2, 1), (1, 2)] [0 \<mapsto> 10, 1 \<mapsto> 20, 2 \<mapsto> 30]
     50 3 0 2 off \<longleftrightarrow> off = 2"
proof -
  show a: "deleted_between [0 \<mapsto> 1, 1 \<mapsto> 1] [(1, 0), (2, 1), (1, 2)] [0 \<mapsto> 10, 1 \<mapsto> 20, 2 \<mapsto> 30]
     50 3 0 1 off \<longleftrightarrow> off = 2"
    using deleted_between_one[of "[0 \<mapsto> 1, 1 \<mapsto> 1]" _ _ _ _ 0 off]
    by (simp add: scenario_rows_resolve)
  have b: "deleted_between [0 \<mapsto> 1, 1 \<mapsto> 1] [(1, 0), (2, 1), (1, 2)] [0 \<mapsto> 10, 1 \<mapsto> 20, 2 \<mapsto> 30]
     50 3 1 2 off \<longleftrightarrow> off = 2"
    using deleted_between_one[of "[0 \<mapsto> 1, 1 \<mapsto> 1]" _ _ _ _ 1 off]
    by (simp add: scenario_rows_resolve)
  show "deleted_between [0 \<mapsto> 1, 1 \<mapsto> 1] [(1, 0), (2, 1), (1, 2)] [0 \<mapsto> 10, 1 \<mapsto> 20, 2 \<mapsto> 30]
     50 3 0 2 off \<longleftrightarrow> off = 2"
    using deleted_between_split[of 0 1 2 "[0 \<mapsto> 1, 1 \<mapsto> 1]" _ _ _ _ off] a b by auto
qed

lemma two_deletes_forward_cache_is_snapshot:
  "bitmap_test (bitmap_ptr (get_lru_entry (deleted_record_m two_deletes_forward_segment))) off
     = snapshot_bit two_deletes_forward_segment
         (del_barrier (get_lru_entry (deleted_record_m two_deletes_forward_segment))) 50 3 off"
  by (auto simp: get_lru_entry_def two_deletes_forward_parts snapshot_bit_def
      two_deletes_snapshots bitmap_test_three)

lemma dup_forward_cache_is_snapshot:
  "bitmap_test (bitmap_ptr (get_lru_entry (deleted_record_m dup_forward_segment))) off
     = snapshot_bit dup_forward_segment
         (del_barrier (get_lru_entry (deleted_record_m dup_forward_segment))) 50 3 off"
  by (auto simp: get_lru_entry_def dup_forward_parts snapshot_bit_def
      dup_snapshots bitmap_test_three)

subsection \<open>Reservation counters\<close>

lemma fetch_add_in_range:
  "- (2 ^ 63) \<le> c + n \<Longrightarrow> c + n < 2 ^ 63 \<Longrightarrow> fetch_add c n = (c, c + n)"
  by (simp add: fetch_add_def signed_take_bit_int_eq_self)

lemma insert_total_Cons_insert [simp]:
  "insert_total (PreInsertCall n # calls) = n + insert_total calls"
  by (simp add: insert_total_def)

lemma insert_total_Cons_delete [simp]:
  "insert_total (PreDeleteCall n # calls) = insert_total calls"
  by (simp add: insert_total_def)

lemma delete_total_Cons_insert [simp]:
  "delete_total (PreInsertCall n # calls) = delete_total calls"
  by (simp add: delete_total_def)

lemma delete_total_Cons_delete [simp]:
  "delete_total (PreDeleteCall n # calls) = n + delete_total calls"
  by (simp add: delete_total_def)

lemma insert_total_nonneg: "\<forall>c \<in> set calls. 0 \<le> call_size c \<Longrightarrow> 0 \<le> insert_total calls"
  by (induction calls) (auto simp: insert_total_def call_size_def split: reserve_call.splits)

lemma delete_total_nonneg: "\<forall>c \<in> set calls. 0 \<le> call_size c \<Longrightarrow> 0 \<le> delete_total calls"
  by (induction calls) (auto simp: delete_total_def call_size_def split: reserve_call.splits)

lemma run_reservations_insert_ranges:
  assumes "\<forall>c \<in> set calls. 0 \<le> call_size c"
    and "0 \<le> reserved (record_m s)"
    and "reserved (record_m s) + insert_total calls < 2 ^ 63"
    and "run_reservations s calls = (rs, s')"
  shows "reserved (record_m s') = reserved (record_m s) + insert_total calls
       \<and> pairwise_disjoint (insert_ranges rs)
       \<and> \<Union> (range_of ` set (insert_ranges rs)) = {reserved (record_m s) ..< reserved (record_m s')}"
  using assms
proof (induction calls arbitrary: s rs s')
  case Nil
  then show ?case by (simp add: insert_total_def delete_total_def)
next
  case (Cons c calls)
  have tail_nonneg: "\<forall>c \<in> set calls. 0 \<le> call_size c" using Cons.prems(1) by simp
  note tot = insert_total_nonneg[OF tail_nonneg]
  show ?case
  proof (cases c)
    case (PreInsertCall n)
    have n0: "0 \<le> n" using Cons.prems(1) PreInsertCall by (simp add: call_size_def)
    define b where "b = reserved (record_m s)"
    define s1 where "s1 = s\<lparr>record_m := (record_m s)\<lparr>reserved := b + n\<rparr>\<rparr>"
    have fa: "fetch_add b n = (b, b + n)"
      using n0 Cons.prems(2,3) tot PreInsertCall
      by (intro fetch_add_in_range) (simp_all add: b_def)
    then have pi: "PreInsert s n = (b, s1)"
      by (simp add: PreInsert_def b_def[symmetric] s1_def)
    obtain rs1 s2 where run: "run_reservations s1 calls = (rs1, s2)" by force
    with Cons.prems(4) PreInsertCall pi
    have rs: "rs = (PreInsertCall n, b) # rs1" and s': "s' = s2" by simp_all
    have r1: "reserved (record_m s1) = b + n" by (simp add: s1_def)
    have "0 \<le> reserved (record_m s1)" using r1 n0 Cons.prems(2) by (simp add: b_def)
    moreover have "reserved (record_m s1) + insert_total calls < 2 ^ 63"
      using r1 Cons.prems(3) PreInsertCall by (simp add: b_def)
    ultimately have IH: "reserved (record_m s2) = b + n + insert_total calls"
      "pairwise_disjoint (insert_ranges rs1)"
      "\<Union> (range_of ` set (insert_ranges rs1)) = {b + n ..< reserved (record_m s2)}"
      using Cons.IH[OF tail_nonneg _ _ run] r1 by simp_all
    have disj: "\<forall>r' \<in> set (insert_ranges rs1). range_of (b, n) \<inter> range_of r' = {}"
    proof
      fix r' assume "r' \<in> set (insert_ranges rs1)"
      then have "range_of r' \<subseteq> {b + n ..< reserved (record_m s2)}"
        using IH(3) by blast
      then show "range_of (b, n) \<inter> range_of r' = {}"
        by (auto simp: range_of_def)
    qed
    have un: "range_of (b, n) \<union> {b + n ..< reserved (record_m s2)} = {b ..< reserved (record_m s2)}"
      using n0 tot IH(1) by (auto simp: range_of_def)
    show ?thesis
      using IH disj un PreInsertCall by (simp add: rs s' b_def[symmetric] add.assoc)
  next
    case (PreDeleteCall n)
    obtain b s1 where pd: "PreDelete s n = (b, s1)" by force
    then have same: "record_m s1 = record_m s"
      by (auto simp: PreDelete_def fetch_add_def)
    obtain rs1 s2 where run: "run_reservations s1 calls = (rs1, s2)" by force
    with Cons.prems(4) PreDeleteCall pd
    have rs: "rs = (PreDeleteCall n, b) # rs1" and s': "s' = s2" by simp_all
    from Cons.IH[OF tail_nonneg _ _ run] Cons.prems(2,3) same PreDeleteCall
    show ?thesis by (simp add: rs s')
  qed
qed

lemma run_reservations_delete_ranges:
  assumes "\<forall>c \<in> set calls. 0 \<le> call_size c"
    and "0 \<le> reserved (deleted_record_m s)"
    and "reserved (deleted_record_m s) + delete_total calls < 2 ^ 63"
    and "run_reservations s calls = (rs, s')"
  shows "reserved (deleted_record_m s') = reserved (deleted_record_m s) + delete_total calls
       \<and> pairwise_disjoint (delete_ranges rs)
       \<and> \<Union> (range_of ` set (delete_ranges rs))
           = {reserved (deleted_record_m s) ..< reserved (deleted_record_m s')}"
  using assms
proof (induction calls arbitrary: s rs s')
  case Nil
  then show ?case by (simp add: insert_total_def delete_total_def)
next
  case (Cons c calls)
  have tail_nonneg: "\<forall>c \<in> set calls. 0 \<le> call_size c" using Cons.prems(1) by simp
  note tot = delete_total_nonneg[OF tail_nonneg]
  show ?case
  proof (cases c)
    case (PreDeleteCall n)
    have n0: "0 \<le> n" using Cons.prems(1) PreDeleteCall by (simp add: call_size_def)
    define b where "b = reserved (deleted_record_m s)"
    define s1 where "s1 = s\<lparr>deleted_record_m := (deleted_record_m s)\<lparr>reserved := b + n\<rparr>\<rparr>"
    have fa: "fetch_add b n = (b, b + n)"
      using n0 Cons.prems(2,3) tot PreDeleteCall
      by (intro fetch_add_in_range) (simp_all add: b_def)
    then have pi: "PreDelete s n = (b, s1)"
      by (simp add: PreDelete_def b_def[symmetric] s1_def)
    obtain rs1 s2 where run: "run_reservations s1 calls = (rs1, s2)" by force
    with Cons.prems(4) PreDeleteCall pi
    have rs: "rs = (PreDeleteCall n, b) # rs1" and s': "s' = s2" by simp_all
    have r1: "reserved (deleted_record_m s1) = b + n" by (simp add: s1_def)
    have "0 \<le> reserved (deleted_record_m s1)" using r1 n0 Cons.prems(2) by (simp add: b_def)
    moreover have "reserved (deleted_record_m s1) + delete_total calls < 2 ^ 63"
      using r1 Cons.prems(3) PreDeleteCall by (simp add: b_def)
    ultimately have IH: "reserved (deleted_record_m s2) = b + n + delete_total calls"
      "pairwise_disjoint (delete_ranges rs1)"
      "\<Union> (range_of ` set (delete_ranges rs1)) = {b + n ..< reserved (deleted_record_m s2)}"
      using Cons.IH[OF tail_nonneg _ _ run] r1 by simp_all
    have disj: "\<forall>r' \<in> set (delete_ranges rs1). range_of (b, n) \<inter> range_of r' = {}"
    proof
      fix r' assume "r' \<in> set (delete_ranges rs1)"
      then have "range_of r' \<subseteq> {b + n ..< reserved (deleted_record_m s2)}"
        using IH(3) by blast
      then show "range_of (b, n) \<inter> range_of r' = {}"
        by (auto simp: range_of_def)
    qed
    have un: "range_of (b, n) \<union> {b + n ..< reserved (deleted_record_m s2)}
                = {b ..< reserved (deleted_record_m s2)}"
      using n0 tot IH(1) by (auto simp: range_of_def)
    show ?thesis
      using IH disj un PreDeleteCall by (simp add: rs s' b_def[symmetric] add.assoc)
  next
    case (PreInsertCall n)
    obtain b s1 where pd: "PreInsert s n = (b, s1)" by force
    then have same: "deleted_record_m s1 = deleted_record_m s"
      by (auto simp: PreInsert_def fetch_add_def)
    obtain rs1 s2 where run: "run_reservations s1 calls = (rs1, s2)" by force
    with Cons.prems(4) PreInsertCall pd
    have rs: "rs = (PreInsertCall n, b) # rs1" and s': "s' = s2" by simp_all
    from Cons.IH[OF tail_nonneg _ _ run] Cons.prems(2,3) same PreInsertCall
    show ?thesis by (simp add: rs s')
  qed
qed

lemma run_three_results:
  "fst (run_reservations (new_segment []) [PreInsertCall 2, PreDeleteCall 1, PreInsertCall 3])
     = [(PreInsertCall 2, 0), (PreDeleteCall 1, 0), (PreInsertCall 3, 2)]"
  "reserved (record_m (snd (run_reservations (new_segment [])
       [PreInsertCall 2, PreDeleteCall 1, PreInsertCall 3]))) = 5"
  "reserved (deleted_record_m (snd (run_reservations (new_segment [])
       [PreInsertCall 2, PreDeleteCall 1, PreInsertCall 3]))) = 1"
  by (simp_all add: PreInsert_def PreDelete_def fetch_add_def new_segment_def Let_def
      signed_take_bit_int_eq_self)

subsection \<open>Failures of Insert\<close>

lemma collect_error: "collect f xs = Inl e \<Longrightarrow> \<exists>x \<in> set xs. f x = Inl e"
  by (induction xs) (auto split: sum.splits)

lemma memcpy_from_error: "memcpy_from buf start len = Inl e \<Longrightarrow> e = OutOfRange"
  by (auto simp: memcpy_from_def split: if_splits)

lemma transpose_rows_error: "transpose_rows sizes raw len_per_row ord = Inl e \<Longrightarrow> e = OutOfRange"
  unfolding transpose_rows_def
  by (auto dest!: collect_error memcpy_from_error)

lemma make_ordering_error:
  "make_ordering n uids tss = Inl e \<Longrightarrow> e = LengthError \<or> e = OutOfRange"
  by (auto simp: make_ordering_def split: if_splits)

subsection \<open>Columns and the transposition of a batch\<close>

lemma set_data_nth:
  "set_data vec b xs off
     = (if b \<le> off \<and> off < b + int (length xs) then Some (xs ! nat (off - b)) else vec off)"
proof (induction xs arbitrary: vec b)
  case Nil
  then show ?case by auto
next
  case (Cons x xs)
  have IH: "set_data (vec(b \<mapsto> x)) (b + 1) xs off
      = (if b + 1 \<le> off \<and> off < b + 1 + int (length xs)
         then Some (xs ! nat (off - (b + 1))) else (vec(b \<mapsto> x)) off)"
    by (rule Cons.IH)
  show ?case
  proof (cases "off = b")
    case True
    with IH show ?thesis by simp
  next
    case False
    have "b + 1 \<le> off \<Longrightarrow> nat (off - b) = Suc (nat (off - (b + 1)))" by simp
    with False IH show ?thesis by auto
  qed
qed

lemma set_data_in_range:
  "k < length xs \<Longrightarrow> set_data vec b xs (b + int k) = Some (xs ! k)"
  by (simp add: set_data_nth)

lemma collect_result:
  "collect f xs = Inr ys \<Longrightarrow> length ys = length xs \<and> (\<forall>i < length xs. f (xs ! i) = Inr (ys ! i))"
proof (induction xs arbitrary: ys)
  case Nil
  then show ?case by simp
next
  case (Cons x xs)
  from Cons.prems obtain y ys' where y: "f x = Inr y" and ys': "collect f xs = Inr ys'"
    and eq: "ys = y # ys'"
    by (auto split: sum.splits)
  from Cons.IH[OF ys'] y eq show ?case
    by (auto simp: nth_Cons split: nat.splits)
qed

lemma collect_total:
  "(\<forall>x \<in> set xs. \<exists>y. f x = Inr y) \<Longrightarrow> \<exists>ys. collect f xs = Inr ys"
  by (induction xs) auto

lemma offset_infos_nth:
  "fid \<le> length sizes \<Longrightarrow> offset_infos sizes ! fid = sum_list (take fid sizes)"
  unfolding offset_infos_def by (simp add: nth_map del: upt_Suc)

lemma sum_list_take_Suc_le:
  fixes sizes :: "nat list"
  shows "fid < length sizes \<Longrightarrow> sum_list (take fid sizes) + sizes ! fid \<le> sum_list sizes"
proof -
  assume a: "fid < length sizes"
  have "sum_list sizes = sum_list (take fid sizes) + sum_list (drop fid sizes)"
    by (metis append_take_drop_id sum_list_append)
  moreover have "drop fid sizes = sizes ! fid # drop (Suc fid) sizes"
    using a by (simp add: Cons_nth_drop_Suc)
  ultimately show ?thesis by simp
qed

lemma transpose_rows_result:
  assumes "transpose_rows sizes raw lpr ord = Inr entities"
    and "fid < length sizes" and "k < length ord"
  shows "length entities = length sizes"
    and "length (entities ! fid) = length ord"
    and "entities ! fid ! k = row_field sizes raw lpr (snd (snd (ord ! k))) fid"
proof -
  from collect_result[OF assms(1)[unfolded transpose_rows_def]]
  have len: "length entities = length sizes"
    and each: "\<And>i. i < length sizes \<Longrightarrow>
        collect (\<lambda>(t, uid, order_index).
           memcpy_from raw (offset_infos sizes ! i + order_index * lpr) (sizes ! i)) ord
          = Inr (entities ! i)"
    by auto
  show "length entities = length sizes" by (rule len)
  from collect_result[OF each[OF assms(2)]]
  have len2: "length (entities ! fid) = length ord"
    and cell: "\<And>j. j < length ord \<Longrightarrow>
        (case ord ! j of (t, uid, order_index) \<Rightarrow>
           memcpy_from raw (offset_infos sizes ! fid + order_index * lpr) (sizes ! fid))
          = Inr (entities ! fid ! j)"
    by auto
  show "length (entities ! fid) = length ord" by (rule len2)
  from cell[OF assms(3)]
  have "memcpy_from raw (offset_infos sizes ! fid + snd (snd (ord ! k)) * lpr) (sizes ! fid)
          = Inr (entities ! fid ! k)"
    by (simp add: case_prod_beta)
  then show "entities ! fid ! k = row_field sizes raw lpr (snd (snd (ord ! k))) fid"
    using assms(2)
    by (auto simp: memcpy_from_def row_field_def offset_infos_nth split: if_splits)
qed

lemma make_ordering_result:
  assumes "make_ordering n uids_raw timestamps_raw = Inr ord"
  shows "0 \<le> n"
    and "length ord = nat n"
    and "sorted ord"
    and "set ord = (\<lambda>i. (timestamps_raw ! i, uids_raw ! i, i)) ` {0..<nat n}"
  using assms by (auto simp: make_ordering_def split: if_splits)

lemma lex_projection_mono:
  fixes x y :: "Timestamp \<times> idx_t \<times> nat"
  shows "x \<le> y \<Longrightarrow> (fst x, fst (snd x)) \<le> (fst y, fst (snd y))"
  by (auto simp: less_eq_prod_def less_prod_def)

lemma sorted_projection:
  fixes ord :: "(Timestamp \<times> idx_t \<times> nat) list"
  shows "sorted ord \<Longrightarrow> sorted (map (\<lambda>x. (fst x, fst (snd x))) ord)"
  unfolding sorted_map
  by (erule sorted_wrt_mono_rel[rotated]) (rule lex_projection_mono)

lemma reserved_parts:
  "uid2offset_m reserved_segment = []"
  "schema_m reserved_segment = [2, 1]"
  by (simp_all add: reserved_segment_def PreInsert_def fetch_add_def new_segment_def Let_def)

lemma filled_run:
  "Insert reserved_segment 0 3 [1, 2, 1] [30, 20, 10] three_rows
     = (Inr OK, filled_segment)"
proof -
  have "fst (Insert reserved_segment 0 3 [1, 2, 1] [30, 20, 10] three_rows)
          = Inr OK"
    by (simp add: reserved_segment_def eval_defs three_rows_def memcpy_from_def offset_infos_def)
  then show ?thesis by (simp add: filled_segment_def prod_eq_iff)
qed

lemma filled_parts:
  "map (timestamps_m (record_m filled_segment)) [0, 1, 2] = [Some 10, Some 20, Some 30]"
  "map (uids_m (record_m filled_segment)) [0, 1, 2] = [Some 1, Some 2, Some 1]"
  "map (entity_vec_m (record_m filled_segment) 0) [0, 1, 2] = [Some ''gh'', Some ''de'', Some ''ab'']"
  "map (entity_vec_m (record_m filled_segment) 1) [0, 1, 2] = [Some ''i'', Some ''f'', Some ''c'']"
  "uid2offset_m filled_segment = [(1, 0), (2, 1), (1, 2)]"
  by (simp_all add: filled_segment_def reserved_segment_def eval_defs three_rows_def
      memcpy_from_def offset_infos_def)

subsection \<open>The writes of Insert in program order\<close>

lemma states_after_prefix:
  "\<sigma> \<in> set (states_after f s xs) \<Longrightarrow> \<exists>pre post. xs = pre @ post \<and> pre \<noteq> [] \<and> \<sigma> = foldl f s pre"
proof (induction xs arbitrary: s)
  case Nil
  then show ?case by simp
next
  case (Cons x xs)
  show ?case
  proof (cases "\<sigma> = f s x")
    case True
    then have "x # xs = [x] @ xs \<and> [x] \<noteq> [] \<and> \<sigma> = foldl f s [x]" by simp
    then show ?thesis by blast
  next
    case False
    with Cons.prems have "\<sigma> \<in> set (states_after f (f s x) xs)" by simp
    from Cons.IH[OF this] obtain pre post
      where "xs = pre @ post" "pre \<noteq> []" "\<sigma> = foldl f (f s x) pre" by blast
    then have "x # xs = (x # pre) @ post \<and> x # pre \<noteq> [] \<and> \<sigma> = foldl f s (x # pre)" by simp
    then show ?thesis by blast
  qed
qed

lemma states_after_last: "xs \<noteq> [] \<Longrightarrow> last (states_after f s xs) = foldl f s xs"
proof (induction xs arbitrary: s)
  case Nil
  then show ?case by simp
next
  case (Cons x xs)
  then show ?case by (cases xs) simp_all
qed

lemma states_after_Nil_iff [simp]: "states_after f s xs = [] \<longleftrightarrow> xs = []"
  by (cases xs) simp_all

lemma column_writes_keep_index:
  "\<forall>st \<in> set xs. column_write st \<Longrightarrow>
   uid2offset_m (foldl (run_insert_step rb n tsl ul ents) \<sigma> xs) = uid2offset_m \<sigma>"
proof (induction xs arbitrary: \<sigma>)
  case Nil
  then show ?case by simp
next
  case (Cons st xs)
  then have "column_write st" by simp
  then have "uid2offset_m (run_insert_step rb n tsl ul ents \<sigma> st) = uid2offset_m \<sigma>"
    by (cases st) simp_all
  with Cons show ?case by simp
qed

lemma other_steps_keep_columns:
  "\<forall>st \<in> set xs. \<not> column_write st \<Longrightarrow>
   timestamps_m (record_m (foldl (run_insert_step rb n tsl ul ents) \<sigma> xs)) = timestamps_m (record_m \<sigma>)
   \<and> uids_m (record_m (foldl (run_insert_step rb n tsl ul ents) \<sigma> xs)) = uids_m (record_m \<sigma>)
   \<and> entity_vec_m (record_m (foldl (run_insert_step rb n tsl ul ents) \<sigma> xs))
       = entity_vec_m (record_m \<sigma>)"
proof (induction xs arbitrary: \<sigma>)
  case Nil
  then show ?case by simp
next
  case (Cons st xs)
  then have "\<not> column_write st" by simp
  then have "timestamps_m (record_m (run_insert_step rb n tsl ul ents \<sigma> st)) = timestamps_m (record_m \<sigma>)
    \<and> uids_m (record_m (run_insert_step rb n tsl ul ents \<sigma> st)) = uids_m (record_m \<sigma>)
    \<and> entity_vec_m (record_m (run_insert_step rb n tsl ul ents \<sigma> st)) = entity_vec_m (record_m \<sigma>)"
    by (cases st) (simp_all add: acknowledge_insert_def)
  with Cons show ?case by simp
qed

lemma run_fields:
  "foldl (run_insert_step rb n tsl ul ents) \<sigma> (map SetField [0..<m])
     = \<sigma>\<lparr>record_m := (record_m \<sigma>)
          \<lparr>entity_vec_m := (\<lambda>fid.
              if fid < m then set_data (entity_vec_m (record_m \<sigma>) fid) rb (ents ! fid)
              else entity_vec_m (record_m \<sigma>) fid)\<rparr>\<rparr>"
proof (induction m)
  case 0
  then show ?case by simp
next
  case (Suc m)
  have "(\<lambda>fid. if fid < m then set_data (entity_vec_m (record_m \<sigma>) fid) rb (ents ! fid)
              else entity_vec_m (record_m \<sigma>) fid)
          (m := set_data (entity_vec_m (record_m \<sigma>) m) rb (ents ! m))
        = (\<lambda>fid. if fid < Suc m then set_data (entity_vec_m (record_m \<sigma>) fid) rb (ents ! fid)
              else entity_vec_m (record_m \<sigma>) fid)"
    by (auto simp: fun_eq_iff)
  with Suc show ?case by simp
qed

lemma run_uids:
  "foldl (run_insert_step rb n tsl ul ents) \<sigma> (map InsertUid [0..<j])
     = \<sigma>\<lparr>uid2offset_m := uid2offset_m \<sigma> @ map (\<lambda>i. (ul ! i, rb + int i)) [0..<j]\<rparr>"
  by (induction j) simp_all

lemma run_insert_steps:
  "foldl (run_insert_step rb n tsl ul ents) s (insert_steps (length (schema_m s)) (length ul))
     = acknowledge_insert (publish_uids (fill_columns s rb tsl ul ents) rb ul) rb n"
  by (simp add: insert_steps_def run_fields run_uids fill_columns_def publish_uids_def
      acknowledge_insert_def cong: if_cong)

lemma insert_steps_nonempty [simp]: "insert_steps m j \<noteq> []"
  by (simp add: insert_steps_def)

lemma Insert_trace_last:
  "Insert s rb n uids_raw timestamps_raw entities_raw
     = (case Insert_trace s rb n uids_raw timestamps_raw entities_raw of
          Inl e \<Rightarrow> (Inl e, s)
        | Inr tr \<Rightarrow> (Inr OK, last tr))"
proof (cases "count entities_raw \<noteq> n
    \<or> sizeof_per_row entities_raw \<noteq> get_total_sizeof (schema_m s)")
  case True
  then show ?thesis by (auto simp: Insert_def Insert_trace_def)
next
  case False
  show ?thesis
  proof (cases "make_ordering n uids_raw timestamps_raw")
    case (Inl e)
    with False show ?thesis by (simp add: Insert_def Insert_trace_def)
  next
    case ord: (Inr ord)
    show ?thesis
    proof (cases "transpose_rows (schema_m s) (raw_data entities_raw)
                     (nat (sizeof_per_row entities_raw)) ord")
      case (Inl e)
      with False ord show ?thesis by (simp add: Insert_def Insert_trace_def)
    next
      case (Inr entities)
      with False ord show ?thesis
        using run_insert_steps[of rb n "map fst ord" "map (\<lambda>x. fst (snd x)) ord" entities s]
        by (simp add: Insert_def Insert_trace_def Let_def states_after_last)
    qed
  qed
qed

lemma trace_order:
  assumes "\<sigma> \<in> set (states_after (run_insert_step rb n tsl ul ents) s (insert_steps m j))"
  shows "uid2offset_m \<sigma> = uid2offset_m s
       \<or> (timestamps_m (record_m \<sigma>)
            = timestamps_m (record_m (foldl (run_insert_step rb n tsl ul ents) s (insert_steps m j)))
          \<and> uids_m (record_m \<sigma>)
            = uids_m (record_m (foldl (run_insert_step rb n tsl ul ents) s (insert_steps m j)))
          \<and> entity_vec_m (record_m \<sigma>)
            = entity_vec_m (record_m (foldl (run_insert_step rb n tsl ul ents) s (insert_steps m j))))"
proof -
  define W where "W = [SetTimestamps, SetUids] @ map SetField [0..<m]"
  define P where "P = map InsertUid [0..<j] @ [AddAck]"
  have steps: "insert_steps m j = W @ P" by (simp add: insert_steps_def W_def P_def)
  have W: "\<forall>st \<in> set W. column_write st" by (auto simp: W_def)
  have P: "\<forall>st \<in> set P. \<not> column_write st" by (auto simp: P_def)
  define run where "run = run_insert_step rb n tsl ul ents"
  from states_after_prefix[OF assms] obtain pre post
    where split: "W @ P = pre @ post" and \<sigma>: "\<sigma> = foldl run s pre"
    by (auto simp: steps run_def)
  from split consider (inW) w2 where "W = pre @ w2" | (inP) p1 p2 where "pre = W @ p1" "P = p1 @ p2"
    by (auto simp: append_eq_append_conv2)
  then show ?thesis
  proof cases
    case inW
    then have "\<forall>st \<in> set pre. column_write st" using W by auto
    then have "uid2offset_m \<sigma> = uid2offset_m s"
      unfolding \<sigma> run_def by (rule column_writes_keep_index)
    then show ?thesis by simp
  next
    case inP
    have p1: "\<forall>st \<in> set p1. \<not> column_write st" using P inP(2) by auto
    have a: "\<sigma> = foldl run (foldl run s W) p1" by (simp add: \<sigma> inP(1))
    have fin: "foldl (run_insert_step rb n tsl ul ents) s (insert_steps m j)
                 = foldl run (foldl run s W) P"
      by (simp add: steps run_def)
    have k1: "timestamps_m (record_m (foldl run (foldl run s W) p1))
                = timestamps_m (record_m (foldl run s W))
            \<and> uids_m (record_m (foldl run (foldl run s W) p1)) = uids_m (record_m (foldl run s W))
            \<and> entity_vec_m (record_m (foldl run (foldl run s W) p1))
                = entity_vec_m (record_m (foldl run s W))"
      unfolding run_def using p1 by (rule other_steps_keep_columns)
    have k2: "timestamps_m (record_m (foldl run (foldl run s W) P))
                = timestamps_m (record_m (foldl run s W))
            \<and> uids_m (record_m (foldl run (foldl run s W) P)) = uids_m (record_m (foldl run s W))
            \<and> entity_vec_m (record_m (foldl run (foldl run s W) P))
                = entity_vec_m (record_m (foldl run s W))"
      unfolding run_def using P by (rule other_steps_keep_columns)
    show ?thesis unfolding fin a using k1 k2 by simp
  qed
qed

lemma filled_trace:
  "map uid2offset_m (case Insert_trace reserved_segment 0 3 [1, 2, 1] [30, 20, 10] three_rows of
                       Inl e \<Rightarrow> [] | Inr tr \<Rightarrow> tr)
     = [[], [], [], [], [(1, 0)], [(1, 0), (2, 1)], [(1, 0), (2, 1), (1, 2)],
        [(1, 0), (2, 1), (1, 2)]]"
  "map (\<lambda>\<sigma>. map (timestamps_m (record_m \<sigma>)) [0, 1, 2])
       (case Insert_trace reserved_segment 0 3 [1, 2, 1] [30, 20, 10] three_rows of
          Inl e \<Rightarrow> [] | Inr tr \<Rightarrow> tr)
     = replicate 8 [Some 10, Some 20, Some 30]"
  "map (\<lambda>\<sigma>. map (entity_vec_m (record_m \<sigma>) 1) [0, 1, 2])
       (case Insert_trace reserved_segment 0 3 [1, 2, 1] [30, 20, 10] three_rows of
          Inl e \<Rightarrow> [] | Inr tr \<Rightarrow> tr)
     = replicate 3 [None, None, None] @ replicate 5 [Some ''i'', Some ''f'', Some ''c'']"
  by (simp_all add: Insert_trace_def insert_steps_def reserved_segment_def eval_defs
      three_rows_def memcpy_from_def offset_infos_def eval_nat_numeral)

section \<open>Snapshot correctness (claim C1)\<close>

text \<open>
  Claim C1 says that the bitmap returned by \<^verbatim>\<open>GetDeletedBitmap(d, t, i, false)\<close> has bit
  \<open>off\<close> set exactly when some delete-log entry with index below \<open>d\<close> resolves to
  \<open>off\<close>. It fails in two ways. The fast path returns the cached entry whenever its
  delete barrier is \<open>d\<close>, whatever \<open>t\<close> and \<open>i\<close> are: in \<open>stale_segment\<close> the query at
  timestamp 50 returns the bitmap computed at timestamp 20, with bit 2 clear, although
  the delete of uid 1 resolves to offset 2. The backward branch clears the bit of every
  undone entry, also when an entry below \<open>d\<close> resolves to the same offset: in
  \<open>dup_forward_segment\<close> the cache holds the snapshot of barrier 2, the log deletes uid 1
  twice, and the query at barrier 1 returns bit 2 clear although entry 0 resolves to
  offset 2.
\<close>

theorem snapshot_counterexample:
  "fst (get_deleted_bitmap stale_segment 1 50 3 False)
     = Inr \<lparr>del_barrier = 1, bitmap_ptr = [True, False, False]\<rparr>
   \<and> \<not> bitmap_test [True, False, False] 2
   \<and> snapshot_bit stale_segment 1 50 3 2
   \<and> fst (get_deleted_bitmap dup_forward_segment 1 50 3 False)
     = Inr \<lparr>del_barrier = 1, bitmap_ptr = [False, False, False]\<rparr>
   \<and> \<not> bitmap_test [False, False, False] 2
   \<and> snapshot_bit dup_forward_segment 1 50 3 2"
proof -
  have a: "fst (get_deleted_bitmap stale_segment 1 50 3 False)
     = Inr \<lparr>del_barrier = 1, bitmap_ptr = [True, False, False]\<rparr>
   \<and> \<not> bitmap_test [True, False, False] 2
   \<and> snapshot_bit stale_segment 1 50 3 2"
    using scenario_resolution_50
    by (simp add: snapshot_bit_def stale_u2o stale_tss stale_del stale_lru
        get_deleted_bitmap_def get_lru_entry_def Let_def bitmap_test_def)
  have b: "fst (get_deleted_bitmap dup_forward_segment 1 50 3 False)
     = Inr \<lparr>del_barrier = 1, bitmap_ptr = [False, False, False]\<rparr>"
    by (simp add: query_defs dup_forward_parts)
  have c: "\<not> bitmap_test [False, False, False] 2" by (simp add: bitmap_test_three)
  have d: "snapshot_bit dup_forward_segment 1 50 3 2"
    by (simp add: snapshot_bit_def dup_forward_parts dup_snapshots)
  from a b c d show ?thesis by simp
qed

text \<open>
  Claim C1, amended: let the most recent cached entry be itself the snapshot for its own
  delete barrier \<open>c\<close> at the same \<open>t\<close> and \<open>i\<close> (as the initial cache entry of a segment
  is), let \<open>c\<close> and \<open>d\<close> be at least 0, the delete-log entries between the two barriers
  written, and every row below \<open>i\<close> named by the uid index have its timestamp written.
  For \<open>d < c\<close>, the backward branch, assume in addition that every row named by the uid
  index has its timestamp written and lies below \<open>i\<close> when its timestamp is below \<open>t\<close>
  (the condition of the assertion in source line 72), and that no entry below \<open>d\<close>
  resolves to an offset that an entry in \<open>[d, c)\<close> resolves to. Then
  \<^verbatim>\<open>get_deleted_bitmap(d, t, i, false)\<close> returns a bitmap, and its bit \<open>off\<close> is set
  exactly when some delete-log entry with index below \<open>d\<close> has a uid that resolves to
  \<open>off\<close>.
\<close>

theorem snapshot_correct_from_correct_cache:
  assumes cache: "\<forall>off. bitmap_test (bitmap_ptr (get_lru_entry (deleted_record_m s))) off
                    = snapshot_bit s (del_barrier (get_lru_entry (deleted_record_m s))) t i off"
    and nonneg: "0 \<le> del_barrier (get_lru_entry (deleted_record_m s))"
    and dnonneg: "0 \<le> d"
    and log: "\<forall>idx. (del_barrier (get_lru_entry (deleted_record_m s)) \<le> idx \<and> idx < d)
                   \<or> (d \<le> idx \<and> idx < del_barrier (get_lru_entry (deleted_record_m s)))
                \<longrightarrow> uids_m (deleted_record_m s) idx \<noteq> None"
    and rows: "\<forall>p \<in> set (uid2offset_m s). snd p < i \<longrightarrow> timestamps_m (record_m s) (snd p) \<noteq> None"
    and backward: "d < del_barrier (get_lru_entry (deleted_record_m s)) \<longrightarrow>
        (\<forall>p \<in> set (uid2offset_m s). timestamps_m (record_m s) (snd p) \<noteq> None)
      \<and> (\<forall>p \<in> set (uid2offset_m s). \<forall>ts.
            timestamps_m (record_m s) (snd p) = Some ts \<and> ts < t \<longrightarrow> snd p < i)
      \<and> (\<forall>off. deleted_between (uids_m (deleted_record_m s)) (uid2offset_m s)
                  (timestamps_m (record_m s)) t i d
                  (del_barrier (get_lru_entry (deleted_record_m s))) off
             \<longrightarrow> \<not> deleted_between (uids_m (deleted_record_m s)) (uid2offset_m s)
                     (timestamps_m (record_m s)) t i 0 d off)"
  shows "\<exists>r. fst (get_deleted_bitmap s d t i False) = Inr r
            \<and> (\<forall>off. bitmap_test (bitmap_ptr r) off = snapshot_bit s d t i off)"
proof -
  define old where "old = get_lru_entry (deleted_record_m s)"
  define du where "du = uids_m (deleted_record_m s)"
  define u2o where "u2o = uid2offset_m s"
  define tss where "tss = timestamps_m (record_m s)"
  define bm where "bm = bitmap_ptr ((clone old i)\<lparr>del_barrier := d\<rparr>)"
  have len: "length bm = nat i" by (simp add: bm_def)
  have bm_test: "bitmap_test bm off \<longleftrightarrow> snapshot_bit s (del_barrier old) t i off" for off
    using cache
    by (auto simp: bm_def clone_test old_def snapshot_bit_def dest: deleted_between_below)
  note gd = get_deleted_bitmap_def Let_def old_def[symmetric] du_def[symmetric]
    u2o_def[symmetric] tss_def[symmetric] bm_def[symmetric]
  consider (hit) "del_barrier old = d" | (fwd) "del_barrier old < d" | (bwd) "d < del_barrier old"
    by linarith
  then show ?thesis
  proof cases
    case hit
    then have "fst (get_deleted_bitmap s d t i False) = Inr old"
      by (simp add: gd)
    moreover have "\<forall>off. bitmap_test (bitmap_ptr old) off = snapshot_bit s d t i off"
      using cache hit by (simp add: old_def)
    ultimately show ?thesis by blast
  next
    case fwd
    have log': "\<forall>idx. del_barrier old \<le> idx \<and> idx < d \<longrightarrow> du idx \<noteq> None"
      using log by (simp add: old_def du_def)
    have rows': "\<forall>p \<in> set u2o. snd p < i \<longrightarrow> tss (snd p) \<noteq> None"
      using rows by (simp add: u2o_def tss_def)
    from forward_loop_total[OF log' rows']
    obtain bm' where run: "forward_loop du u2o tss t i (del_barrier old) d bm = Inr bm'"
      by blast
    have res: "fst (get_deleted_bitmap s d t i False)
                 = Inr ((clone old i)\<lparr>del_barrier := d, bitmap_ptr := bm'\<rparr>)"
      using fwd run by (simp add: gd)
    have "bitmap_test bm' off = snapshot_bit s d t i off" for off
    proof -
      have a: "bitmap_test bm' off \<longleftrightarrow> bitmap_test bm off
           \<or> (0 \<le> off \<and> deleted_between du u2o tss t i (del_barrier old) d off)"
        using forward_loop_bits[OF run len] by blast
      have c: "deleted_between du u2o tss t i 0 d off
               \<longleftrightarrow> deleted_between du u2o tss t i 0 (del_barrier old) off
                 \<or> deleted_between du u2o tss t i (del_barrier old) d off"
        using nonneg fwd by (intro deleted_between_split) (simp_all add: old_def)
      from a bm_test[of off] c show ?thesis
        by (auto simp: snapshot_bit_def du_def u2o_def tss_def)
    qed
    with res show ?thesis by simp
  next
    case bwd
    have log': "\<forall>idx. d \<le> idx \<and> idx < del_barrier old \<longrightarrow> du idx \<noteq> None"
      using log by (simp add: old_def du_def)
    from backward bwd
    have rows': "\<forall>p \<in> set u2o. tss (snd p) \<noteq> None"
      and below': "\<forall>p \<in> set u2o. \<forall>ts. tss (snd p) = Some ts \<and> ts < t \<longrightarrow> snd p < i"
      and nodup: "\<And>off. deleted_between du u2o tss t i d (del_barrier old) off
             \<Longrightarrow> \<not> deleted_between du u2o tss t i 0 d off"
      by (simp_all add: old_def du_def u2o_def tss_def)
    from backward_loop_total[OF log' rows' below']
    obtain bm' where run: "backward_loop du u2o tss t i d (del_barrier old) bm = Inr bm'"
      by blast
    have res: "fst (get_deleted_bitmap s d t i False)
                 = Inr ((clone old i)\<lparr>del_barrier := d, bitmap_ptr := bm'\<rparr>)"
      using bwd run by (simp add: gd)
    have "bitmap_test bm' off = snapshot_bit s d t i off" for off
    proof -
      have a: "bitmap_test bm' off \<longleftrightarrow> bitmap_test bm off
           \<and> \<not> (0 \<le> off \<and> deleted_between du u2o tss t i d (del_barrier old) off)"
        using backward_loop_bits[OF run rows' below'] by blast
      have c: "deleted_between du u2o tss t i 0 (del_barrier old) off
               \<longleftrightarrow> deleted_between du u2o tss t i 0 d off
                 \<or> deleted_between du u2o tss t i d (del_barrier old) off"
        using dnonneg bwd by (intro deleted_between_split) simp_all
      from a bm_test[of off] c nodup[of off] show ?thesis
        by (auto simp: snapshot_bit_def du_def u2o_def tss_def)
    qed
    with res show ?thesis by simp
  qed
qed

text \<open>
  The amended claim C1 on the scenario of the specification, a forward call: from the
  initial cache, the query at timestamp 50 sets the bit of offset 2, the row
  \<open>(t = 30, uid = 1)\<close>, and not the bit of offset 0. And on a backward call: in
  \<open>two_deletes_forward_segment\<close> the cache holds the snapshot of barrier 2 and the query
  at barrier 1 undoes the delete of uid 2, which leaves bit 2 and clears bit 1.
\<close>

theorem snapshot_correct_from_correct_cache_witness:
  "fst (get_deleted_bitmap scenario_segment 1 50 3 False)
     = Inr \<lparr>del_barrier = 1, bitmap_ptr = [False, False, True]\<rparr>
   \<and> snapshot_bit scenario_segment 1 50 3 2
   \<and> \<not> snapshot_bit scenario_segment 1 50 3 0
   \<and> fst (get_deleted_bitmap two_deletes_forward_segment 1 50 3 False)
     = Inr \<lparr>del_barrier = 1, bitmap_ptr = [False, False, True]\<rparr>
   \<and> snapshot_bit two_deletes_forward_segment 1 50 3 2
   \<and> \<not> snapshot_bit two_deletes_forward_segment 1 50 3 1"
proof -
  have cache: "\<forall>off. bitmap_test (bitmap_ptr (get_lru_entry (deleted_record_m scenario_segment))) off
     = snapshot_bit scenario_segment (del_barrier (get_lru_entry (deleted_record_m scenario_segment))) 50 3 off"
    by (simp add: get_lru_entry_def scenario_lru bitmap_test_def snapshot_bit_def deleted_between_empty)
  have log: "\<forall>idx. (del_barrier (get_lru_entry (deleted_record_m scenario_segment)) \<le> idx \<and> idx < 1)
                   \<or> (1 \<le> idx \<and> idx < del_barrier (get_lru_entry (deleted_record_m scenario_segment)))
                \<longrightarrow> uids_m (deleted_record_m scenario_segment) idx \<noteq> None"
    by (auto simp: get_lru_entry_def scenario_lru scenario_del)
  have rows: "\<forall>p \<in> set (uid2offset_m scenario_segment). snd p < 3
                \<longrightarrow> timestamps_m (record_m scenario_segment) (snd p) \<noteq> None"
    by (simp add: scenario_u2o scenario_tss)
  have q: "fst (get_deleted_bitmap scenario_segment 1 50 3 False)
     = Inr \<lparr>del_barrier = 1, bitmap_ptr = [False, False, True]\<rparr>"
    by (simp add: query_defs scenario_u2o scenario_tss scenario_del scenario_lru)
  from snapshot_correct_from_correct_cache[of scenario_segment 50 3 1, OF cache _ _ log rows] q
  have "\<forall>off. bitmap_test [False, False, True] off = snapshot_bit scenario_segment 1 50 3 off"
    by (simp add: get_lru_entry_def scenario_lru)
  then have f1: "snapshot_bit scenario_segment 1 50 3 2 = bitmap_test [False, False, True] 2"
    and f2: "snapshot_bit scenario_segment 1 50 3 0 = bitmap_test [False, False, True] 0"
    by simp_all
  have cache2: "\<forall>off. bitmap_test (bitmap_ptr (get_lru_entry (deleted_record_m two_deletes_forward_segment))) off
     = snapshot_bit two_deletes_forward_segment
         (del_barrier (get_lru_entry (deleted_record_m two_deletes_forward_segment))) 50 3 off"
    using two_deletes_forward_cache_is_snapshot by blast
  have log2: "\<forall>idx. (del_barrier (get_lru_entry (deleted_record_m two_deletes_forward_segment)) \<le> idx \<and> idx < 1)
                   \<or> (1 \<le> idx \<and> idx < del_barrier (get_lru_entry (deleted_record_m two_deletes_forward_segment)))
                \<longrightarrow> uids_m (deleted_record_m two_deletes_forward_segment) idx \<noteq> None"
    by (auto simp: get_lru_entry_def two_deletes_forward_parts)
  have rows2: "\<forall>p \<in> set (uid2offset_m two_deletes_forward_segment). snd p < 3
                \<longrightarrow> timestamps_m (record_m two_deletes_forward_segment) (snd p) \<noteq> None"
    by (simp add: two_deletes_forward_parts)
  have back2: "1 < del_barrier (get_lru_entry (deleted_record_m two_deletes_forward_segment)) \<longrightarrow>
        (\<forall>p \<in> set (uid2offset_m two_deletes_forward_segment).
            timestamps_m (record_m two_deletes_forward_segment) (snd p) \<noteq> None)
      \<and> (\<forall>p \<in> set (uid2offset_m two_deletes_forward_segment). \<forall>ts.
            timestamps_m (record_m two_deletes_forward_segment) (snd p) = Some ts \<and> ts < 50
            \<longrightarrow> snd p < 3)
      \<and> (\<forall>off. deleted_between (uids_m (deleted_record_m two_deletes_forward_segment))
                  (uid2offset_m two_deletes_forward_segment)
                  (timestamps_m (record_m two_deletes_forward_segment)) 50 3 1
                  (del_barrier (get_lru_entry (deleted_record_m two_deletes_forward_segment))) off
             \<longrightarrow> \<not> deleted_between (uids_m (deleted_record_m two_deletes_forward_segment))
                     (uid2offset_m two_deletes_forward_segment)
                     (timestamps_m (record_m two_deletes_forward_segment)) 50 3 0 1 off)"
    by (simp add: get_lru_entry_def two_deletes_forward_parts two_deletes_snapshots)
  have q2: "fst (get_deleted_bitmap two_deletes_forward_segment 1 50 3 False)
     = Inr \<lparr>del_barrier = 1, bitmap_ptr = [False, False, True]\<rparr>"
    by (simp add: query_defs two_deletes_forward_parts)
  from snapshot_correct_from_correct_cache[of two_deletes_forward_segment 50 3 1,
      OF cache2 _ _ log2 rows2 back2] q2
  have "\<forall>off. bitmap_test [False, False, True] off
          = snapshot_bit two_deletes_forward_segment 1 50 3 off"
    by (simp add: get_lru_entry_def two_deletes_forward_parts)
  then have g1: "snapshot_bit two_deletes_forward_segment 1 50 3 2 = bitmap_test [False, False, True] 2"
    and g2: "snapshot_bit two_deletes_forward_segment 1 50 3 1 = bitmap_test [False, False, True] 1"
    by simp_all
  from q q2 f1 f2 g1 g2 show ?thesis by (simp add: bitmap_test_three)
qed

section \<open>Forward and backward reconciliation (claims C2 and C4)\<close>

text \<open>
  Claim C2 says that reconciling forward from \<open>d1\<close> to \<open>d2\<close> and then backward from
  \<open>d2\<close> to \<open>d1\<close> gives back the set bits of the bitmap at \<open>d1\<close>. The backward branch
  clears the bit of every undone entry, also when an entry below \<open>d1\<close> had set the same
  bit: in \<open>dup_segment\<close> the log deletes uid 1 twice, the bitmap at barrier 1 has bit 2
  set, and after going forward to barrier 2 and back to barrier 1 the bit is clear.
\<close>

theorem forward_then_backward_counterexample:
  "get_lru_entry (deleted_record_m dup_segment) = \<lparr>del_barrier = 1, bitmap_ptr = [False, False, True]\<rparr>
   \<and> fst (get_deleted_bitmap dup_segment 2 50 3 False)
       = Inr \<lparr>del_barrier = 2, bitmap_ptr = [False, False, True]\<rparr>
   \<and> fst (get_deleted_bitmap (snd (get_deleted_bitmap dup_segment 2 50 3 False)) 1 50 3 False)
       = Inr \<lparr>del_barrier = 1, bitmap_ptr = [False, False, False]\<rparr>
   \<and> bitmap_test [False, False, True] 2 \<and> \<not> bitmap_test [False, False, False] 2"
  by (simp add: query_defs dup_parts bitmap_test_def)

text \<open>
  Claim C2, amended: let the cached entry have delete barrier \<open>d1 \<le> d2\<close>. Assume that
  the delete-log entries in \<open>[d1, d2)\<close> are written, that every row named by the uid index
  has its timestamp written and lies below the insert barrier when its timestamp is
  below the query timestamp, that no entry in \<open>[d1, d2)\<close> resolves to a bit already set
  in the cached bitmap, and that the set bits of the cached bitmap lie below the insert
  barrier. Then the call at \<open>d2\<close> and the following call at \<open>d1\<close> (same timestamp, insert
  barrier and force flag) both return a bitmap, and the second has exactly the set bits
  of the entry cached at the start.
\<close>

theorem forward_then_backward_restores:
  assumes d1: "del_barrier (get_lru_entry (deleted_record_m s)) = d1"
    and le: "d1 \<le> d2"
    and log: "\<forall>idx. d1 \<le> idx \<and> idx < d2 \<longrightarrow> uids_m (deleted_record_m s) idx \<noteq> None"
    and rows: "\<forall>p \<in> set (uid2offset_m s). timestamps_m (record_m s) (snd p) \<noteq> None"
    and below: "\<forall>p \<in> set (uid2offset_m s). \<forall>ts.
                  timestamps_m (record_m s) (snd p) = Some ts \<and> ts < t \<longrightarrow> snd p < i"
    and fresh: "\<forall>off. deleted_between (uids_m (deleted_record_m s)) (uid2offset_m s)
                  (timestamps_m (record_m s)) t i d1 d2 off
                \<longrightarrow> \<not> bitmap_test (bitmap_ptr (get_lru_entry (deleted_record_m s))) off"
    and span: "\<forall>off. bitmap_test (bitmap_ptr (get_lru_entry (deleted_record_m s))) off \<longrightarrow> off < i"
  shows "\<exists>r1 s1 r2 s2.
           get_deleted_bitmap s d2 t i force = (Inr r1, s1)
           \<and> get_deleted_bitmap s1 d1 t i force = (Inr r2, s2)
           \<and> (\<forall>off. bitmap_test (bitmap_ptr r2) off
                  = bitmap_test (bitmap_ptr (get_lru_entry (deleted_record_m s))) off)"
proof -
  define old where "old = get_lru_entry (deleted_record_m s)"
  define du where "du = uids_m (deleted_record_m s)"
  define u2o where "u2o = uid2offset_m s"
  define tss where "tss = timestamps_m (record_m s)"
  define bm0 where "bm0 = bitmap_ptr (clone old i)"
  have old_d: "del_barrier old = d1" using d1 by (simp add: old_def)
  have len0: "length bm0 = nat i" by (simp add: bm0_def)
  have bm0_test: "bitmap_test bm0 off = bitmap_test (bitmap_ptr old) off" for off
    using span by (auto simp: bm0_def clone_test old_def)
  note gd = get_deleted_bitmap_def Let_def old_def[symmetric] du_def[symmetric]
    u2o_def[symmetric] tss_def[symmetric]
  show ?thesis
  proof (cases "(\<not> force \<or> bitmap_count (bitmap_ptr old) = i) \<and> d1 = d2")
    case True
    then have "get_deleted_bitmap s d2 t i force = (Inr old, s)"
      and "get_deleted_bitmap s d1 t i force = (Inr old, s)"
      using old_d by (auto simp: gd)
    then show ?thesis unfolding old_def by blast
  next
    case False
    then have nofast: "\<not> ((\<not> force \<or> bitmap_count (bitmap_ptr old) = i) \<and> del_barrier old = d2)"
      using old_d by auto
    have rows_lt: "\<forall>p \<in> set u2o. snd p < i \<longrightarrow> tss (snd p) \<noteq> None"
      using rows by (simp add: u2o_def tss_def)
    from forward_loop_total[OF log[folded du_def] rows_lt]
    obtain bm1 where run1: "forward_loop du u2o tss t i d1 d2 bm0 = Inr bm1" by blast
    define r1 where "r1 = (clone old i)\<lparr>del_barrier := d2, bitmap_ptr := bm1\<rparr>"
    define s1 where "s1 = s\<lparr>deleted_record_m := insert_lru_entry r1 (deleted_record_m s)\<rparr>"
    have call1: "get_deleted_bitmap s d2 t i force = (Inr r1, s1)"
      using nofast le run1 old_d
      by (auto simp: gd bm0_def[symmetric] r1_def s1_def)
    from forward_loop_bits[OF run1 len0]
    have len1: "length bm1 = nat i"
      and bits1: "\<And>off. bitmap_test bm1 off \<longleftrightarrow>
            bitmap_test bm0 off \<or> (0 \<le> off \<and> deleted_between du u2o tss t i d1 d2 off)"
      using len0 by auto
    have s1_old: "get_lru_entry (deleted_record_m s1) = r1"
      by (simp add: s1_def get_lru_entry_def insert_lru_entry_def)
    have s1_du: "uids_m (deleted_record_m s1) = du"
      by (simp add: s1_def insert_lru_entry_def du_def)
    have s1_u2o: "uid2offset_m s1 = u2o" by (simp add: s1_def u2o_def)
    have s1_tss: "timestamps_m (record_m s1) = tss" by (simp add: s1_def tss_def)
    have r1_d: "del_barrier r1 = d2" and r1_bm: "bitmap_ptr r1 = bm1"
      by (simp_all add: r1_def)
    have clone_r1: "bitmap_ptr (clone r1 i) = bm1"
      using clone_same_length[of r1 i] len1 r1_bm by simp
    note gd1 = get_deleted_bitmap_def Let_def s1_old s1_du s1_u2o s1_tss r1_d r1_bm
    show ?thesis
    proof (cases "d1 = d2")
      case eq: True
      with False have force: "force" and cnt: "bitmap_count (bitmap_ptr old) \<noteq> i" by auto
      from eq run1 have bm1_eq: "bm1 = bm0" by (simp add: forward_loop_done)
      show ?thesis
      proof (cases "0 \<le> i")
        case True
        then have "bitmap_count bm1 = i" using len1 by (simp add: bitmap_count_def)
        then have "get_deleted_bitmap s1 d1 t i force = (Inr r1, s1)"
          using eq by (simp add: gd1)
        moreover have "\<forall>off. bitmap_test (bitmap_ptr r1) off = bitmap_test (bitmap_ptr old) off"
          using bm0_test bm1_eq r1_bm by simp
        ultimately show ?thesis using call1 unfolding old_def by blast
      next
        case neg: False
        then have cnt1: "bitmap_count bm1 \<noteq> i" by (simp add: bitmap_count_def)
        have "forward_loop du u2o tss t i d2 d1 bm1 = Inr bm1"
          using eq by (simp add: forward_loop_done)
        then have call2: "get_deleted_bitmap s1 d1 t i force
              = (Inr ((clone r1 i)\<lparr>del_barrier := d1, bitmap_ptr := bm1\<rparr>),
                 s1\<lparr>deleted_record_m := insert_lru_entry
                       ((clone r1 i)\<lparr>del_barrier := d1, bitmap_ptr := bm1\<rparr>) (deleted_record_m s1)\<rparr>)"
          using eq force cnt1 by (simp add: gd1 clone_r1)
        have "\<forall>off. bitmap_test bm1 off = bitmap_test (bitmap_ptr old) off"
          using bm0_test bm1_eq by simp
        then have "\<forall>off. bitmap_test (bitmap_ptr ((clone r1 i)\<lparr>del_barrier := d1, bitmap_ptr := bm1\<rparr>)) off
              = bitmap_test (bitmap_ptr old) off"
          by simp
        with call1 call2 show ?thesis unfolding old_def by blast
      qed
    next
      case lt: False
      with le have lt: "d1 < d2" by simp
      have rows': "\<forall>p \<in> set u2o. tss (snd p) \<noteq> None"
        using rows by (simp add: u2o_def tss_def)
      have below': "\<forall>p \<in> set u2o. \<forall>ts. tss (snd p) = Some ts \<and> ts < t \<longrightarrow> snd p < i"
        using below by (simp add: u2o_def tss_def)
      from backward_loop_total[OF log[folded du_def] rows' below']
      obtain bm2 where run2: "backward_loop du u2o tss t i d1 d2 bm1 = Inr bm2" by blast
      define r2 where "r2 = (clone r1 i)\<lparr>del_barrier := d1, bitmap_ptr := bm2\<rparr>"
      have call2: "get_deleted_bitmap s1 d1 t i force = (Inr r2, s1)"
        using lt run2 by (simp add: gd1 clone_r1 r2_def)
      from backward_loop_bits[OF run2 rows' below']
      have bits2: "\<And>off. bitmap_test bm2 off \<longleftrightarrow>
            bitmap_test bm1 off \<and> \<not> (0 \<le> off \<and> deleted_between du u2o tss t i d1 d2 off)"
        by auto
      have "bitmap_test (bitmap_ptr r2) off = bitmap_test (bitmap_ptr old) off" for off
      proof -
        have "deleted_between du u2o tss t i d1 d2 off \<Longrightarrow> \<not> bitmap_test (bitmap_ptr old) off"
          using fresh by (simp add: du_def u2o_def tss_def old_def)
        then show ?thesis
          using bits2[of off] bits1[of off] bm0_test[of off] by (auto simp: r2_def)
      qed
      with call1 call2 show ?thesis unfolding old_def by blast
    qed
  qed
qed

text \<open>
  The amended claim C2 on \<open>two_deletes_segment\<close>: the bitmap at barrier 1 has bit 2 set;
  going forward to barrier 2 sets bit 1, going back to barrier 1 clears it again.
\<close>

theorem forward_then_backward_restores_witness:
  "fst (get_deleted_bitmap two_deletes_segment 2 50 3 False)
       = Inr \<lparr>del_barrier = 2, bitmap_ptr = [False, True, True]\<rparr>
   \<and> fst (get_deleted_bitmap (snd (get_deleted_bitmap two_deletes_segment 2 50 3 False)) 1 50 3 False)
       = Inr \<lparr>del_barrier = 1, bitmap_ptr = [False, False, True]\<rparr>
   \<and> (\<exists>r1 s1 r2 s2.
         get_deleted_bitmap two_deletes_segment 2 50 3 False = (Inr r1, s1)
         \<and> get_deleted_bitmap s1 1 50 3 False = (Inr r2, s2)
         \<and> (\<forall>off. bitmap_test (bitmap_ptr r2) off
                = bitmap_test (bitmap_ptr (get_lru_entry (deleted_record_m two_deletes_segment))) off))"
proof -
  have d1: "del_barrier (get_lru_entry (deleted_record_m two_deletes_segment)) = 1"
    by (simp add: get_lru_entry_def two_deletes_parts)
  have log: "\<forall>idx. 1 \<le> idx \<and> idx < 2 \<longrightarrow> uids_m (deleted_record_m two_deletes_segment) idx \<noteq> None"
    by (auto simp: two_deletes_parts)
  have rows: "\<forall>p \<in> set (uid2offset_m two_deletes_segment).
                timestamps_m (record_m two_deletes_segment) (snd p) \<noteq> None"
    by (simp add: two_deletes_parts)
  have below: "\<forall>p \<in> set (uid2offset_m two_deletes_segment). \<forall>ts.
                  timestamps_m (record_m two_deletes_segment) (snd p) = Some ts \<and> ts < 50 \<longrightarrow> snd p < 3"
    by (simp add: two_deletes_parts)
  have fresh: "\<forall>off. deleted_between (uids_m (deleted_record_m two_deletes_segment))
                  (uid2offset_m two_deletes_segment)
                  (timestamps_m (record_m two_deletes_segment)) 50 3 1 2 off
                \<longrightarrow> \<not> bitmap_test (bitmap_ptr (get_lru_entry (deleted_record_m two_deletes_segment))) off"
  proof (intro allI impI)
    fix off
    assume "deleted_between (uids_m (deleted_record_m two_deletes_segment))
                  (uid2offset_m two_deletes_segment)
                  (timestamps_m (record_m two_deletes_segment)) 50 3 1 2 off"
    then obtain idx :: int and uid :: int
      where "1 \<le> idx" "idx < 2" "[0 \<mapsto> 1, 1 \<mapsto> 2] idx = Some uid"
      "resolves_to [(1, 0), (2, 1), (1, 2)] [0 \<mapsto> 10, 1 \<mapsto> 20, 2 \<mapsto> 30] 50 3 uid off"
      by (auto simp: deleted_between_def two_deletes_parts)
    then have "idx = 1" "uid = 2" by auto
    with \<open>resolves_to _ _ _ _ uid off\<close> have "off = 1"
      by (auto simp: resolves_to_def visible_candidate_def)
    then show "\<not> bitmap_test (bitmap_ptr (get_lru_entry (deleted_record_m two_deletes_segment))) off"
      by (simp add: get_lru_entry_def two_deletes_parts bitmap_test_def)
  qed
  have span: "\<forall>off. bitmap_test (bitmap_ptr (get_lru_entry (deleted_record_m two_deletes_segment))) off
                \<longrightarrow> off < 3"
    by (simp add: get_lru_entry_def two_deletes_parts bitmap_test_def)
  have e1: "fst (get_deleted_bitmap two_deletes_segment 2 50 3 False)
       = Inr \<lparr>del_barrier = 2, bitmap_ptr = [False, True, True]\<rparr>"
    by (simp add: query_defs two_deletes_parts)
  have e2: "fst (get_deleted_bitmap (snd (get_deleted_bitmap two_deletes_segment 2 50 3 False)) 1 50 3 False)
       = Inr \<lparr>del_barrier = 1, bitmap_ptr = [False, False, True]\<rparr>"
    by (simp add: query_defs two_deletes_parts)
  from forward_then_backward_restores[OF d1 _ log rows below fresh span, of False] e1 e2
  show ?thesis by simp
qed

text \<open>
  Claim C4 says that in backward reconciliation a candidate at or above the insert
  barrier is left out of consideration rather than causing a failure. The forward branch
  skips such a candidate (source lines 94--96); the backward branch reads its timestamp
  and runs into \<^verbatim>\<open>Assert(offset < insert_barrier)\<close> (source line 72). In
  \<open>late_row_segment\<close> the uid index holds offsets 0 and 1 for uid 1, both with timestamps
  below 50; undoing the delete at insert barrier 1 fails the assertion on offset 1.
\<close>

theorem backward_assert_fails_on_late_row:
  "fst (get_deleted_bitmap late_row_segment 0 50 1 False) = Inl AssertFailure"
  by (simp add: query_defs late_row_parts)

text \<open>
  On the input of claim C4 the call returns no bitmap.
\<close>

theorem backward_assert_fails_on_late_row_witness:
  "\<not> (\<exists>r. fst (get_deleted_bitmap late_row_segment 0 50 1 False) = Inr r)"
  using backward_assert_fails_on_late_row by simp

text \<open>
  The two candidate scans on the candidates of that call: the forward scan skips offset
  1 and resolves to offset 0, the backward scan fails.
\<close>

lemma forward_skips_late_row:
  "scan_forward [0 \<mapsto> 30, 1 \<mapsto> 10] 50 1 [0, 1] (- 1) = Inr 0"
  "scan_backward [0 \<mapsto> 30, 1 \<mapsto> 10] 50 1 [0, 1] (- 1) = Inl AssertFailure"
  by simp_all

section \<open>The cache (claims C3, C5 and C10)\<close>

text \<open>
  Claim C3: calling \<^verbatim>\<open>get_deleted_bitmap\<close> twice with the same arguments, the second
  time on the segment the first call left, returns the same result: the same entry, so
  the same set bits, or the same failure.
\<close>

theorem repeated_query_same_result:
  "fst (get_deleted_bitmap (snd (get_deleted_bitmap s d t i f)) d t i f)
     = fst (get_deleted_bitmap s d t i f)"
proof -
  define old where "old = get_lru_entry (deleted_record_m s)"
  define du where "du = uids_m (deleted_record_m s)"
  define u2o where "u2o = uid2offset_m s"
  define tss where "tss = timestamps_m (record_m s)"
  define bm0 where "bm0 = bitmap_ptr (clone old i)"
  note gd = get_deleted_bitmap_def Let_def old_def[symmetric] du_def[symmetric]
    u2o_def[symmetric] tss_def[symmetric]
  consider (hit) "(\<not> f \<or> bitmap_count (bitmap_ptr old) = i) \<and> del_barrier old = d"
    | (bwd) "\<not> ((\<not> f \<or> bitmap_count (bitmap_ptr old) = i) \<and> del_barrier old = d)"
             "d < del_barrier old"
    | (fwd) "\<not> ((\<not> f \<or> bitmap_count (bitmap_ptr old) = i) \<and> del_barrier old = d)"
             "\<not> d < del_barrier old"
    by blast
  then show ?thesis
  proof cases
    case hit
    then have "snd (get_deleted_bitmap s d t i f) = s" by (simp add: gd)
    then show ?thesis by simp
  next
    case bwd
    then have "snd (get_deleted_bitmap s d t i f) = s"
      by (simp add: gd split: sum.splits)
    then show ?thesis by simp
  next
    case fwd
    show ?thesis
    proof (cases "forward_loop du u2o tss t i (del_barrier old) d bm0")
      case (Inl e)
      with fwd have "snd (get_deleted_bitmap s d t i f) = s"
        by (simp add: gd bm0_def)
      then show ?thesis by simp
    next
      case (Inr bm1)
      define r1 where "r1 = (clone old i)\<lparr>del_barrier := d, bitmap_ptr := bm1\<rparr>"
      define s1 where "s1 = s\<lparr>deleted_record_m := insert_lru_entry r1 (deleted_record_m s)\<rparr>"
      have call1: "get_deleted_bitmap s d t i f = (Inr r1, s1)"
        using fwd Inr by (auto simp: gd bm0_def[symmetric] r1_def s1_def)
      have len1: "length bm1 = nat i"
        using forward_loop_bits[OF Inr] by (simp add: bm0_def)
      have s1_old: "get_lru_entry (deleted_record_m s1) = r1"
        by (simp add: s1_def get_lru_entry_def insert_lru_entry_def)
      have s1_du: "uids_m (deleted_record_m s1) = du"
        by (simp add: s1_def insert_lru_entry_def du_def)
      have s1_u2o: "uid2offset_m s1 = u2o" by (simp add: s1_def u2o_def)
      have s1_tss: "timestamps_m (record_m s1) = tss" by (simp add: s1_def tss_def)
      have r1_d: "del_barrier r1 = d" and r1_bm: "bitmap_ptr r1 = bm1"
        by (simp_all add: r1_def)
      have clone_r1: "bitmap_ptr (clone r1 i) = bm1"
        using clone_same_length[of r1 i] len1 r1_bm by simp
      have same: "(clone r1 i)\<lparr>del_barrier := d, bitmap_ptr := bm1\<rparr> = r1"
        by (simp add: r1_def clone_def)
      have "fst (get_deleted_bitmap s1 d t i f) = Inr r1"
        by (simp add: get_deleted_bitmap_def Let_def s1_old s1_du s1_u2o s1_tss r1_d r1_bm
            clone_r1 forward_loop_done same)
      with call1 show ?thesis by simp
    qed
  qed
qed

text \<open>
  Claim C3 on the scenario of the specification.
\<close>

theorem repeated_query_same_result_witness:
  "fst (get_deleted_bitmap (snd (get_deleted_bitmap scenario_segment 1 50 3 False)) 1 50 3 False)
     = Inr \<lparr>del_barrier = 1, bitmap_ptr = [False, False, True]\<rparr>"
  using repeated_query_same_result[of scenario_segment 1 50 3 False]
  by (simp add: scenario_query)

text \<open>
  Claim C5: a call that hits the fast path returns the cached entry and leaves the
  segment as it was; a call that takes the backward branch leaves the segment as it was,
  and the entry it returns is not the cached one; a call that takes the forward branch
  and returns an entry has passed it to \<^verbatim>\<open>insert_lru_entry\<close>, so that it is the most
  recent entry afterwards (a forward call that fails leaves the segment as it was).
\<close>

theorem cache_published_only_forward:
  assumes "get_deleted_bitmap s d t i f = (res, s')"
  shows "(fast_path_hit s d i f \<longrightarrow>
            res = Inr (get_lru_entry (deleted_record_m s)) \<and> s' = s)
       \<and> (takes_backward_branch s d i f \<longrightarrow>
            s' = s \<and> (\<forall>r. res = Inr r \<longrightarrow> get_lru_entry (deleted_record_m s') \<noteq> r))
       \<and> (takes_forward_branch s d i f \<longrightarrow>
            (case res of
               Inl e \<Rightarrow> s' = s
             | Inr r \<Rightarrow> s' = s\<lparr>deleted_record_m := insert_lru_entry r (deleted_record_m s)\<rparr>
                         \<and> get_lru_entry (deleted_record_m s') = r))"
proof -
  have hit: "res = Inr (get_lru_entry (deleted_record_m s)) \<and> s' = s"
    if "fast_path_hit s d i f"
    using assms that by (auto simp: fast_path_hit_def get_deleted_bitmap_def Let_def)
  have bwd: "s' = s \<and> (\<forall>r. res = Inr r \<longrightarrow> get_lru_entry (deleted_record_m s') \<noteq> r)"
    if b: "takes_backward_branch s d i f"
  proof -
    from assms b have same: "s' = s"
      by (auto simp: takes_backward_branch_def fast_path_hit_def get_deleted_bitmap_def Let_def
          split: sum.splits)
    have "get_lru_entry (deleted_record_m s) \<noteq> r" if "res = Inr r" for r
    proof -
      from assms b that have "del_barrier r = d"
        by (auto simp: takes_backward_branch_def fast_path_hit_def get_deleted_bitmap_def Let_def
            split: sum.splits)
      with b show ?thesis by (auto simp: takes_backward_branch_def)
    qed
    with same show ?thesis by simp
  qed
  have fwd: "case res of
               Inl e \<Rightarrow> s' = s
             | Inr r \<Rightarrow> s' = s\<lparr>deleted_record_m := insert_lru_entry r (deleted_record_m s)\<rparr>
                         \<and> get_lru_entry (deleted_record_m s') = r"
    if "takes_forward_branch s d i f"
    using assms that
    by (auto simp: takes_forward_branch_def fast_path_hit_def get_deleted_bitmap_def Let_def
        get_lru_entry_def insert_lru_entry_def split: sum.splits)
  from hit bwd fwd show ?thesis by blast
qed

text \<open>
  Claim C5 on a forward call (the scenario of the specification) and on a backward call
  (\<open>dup_segment\<close> queried at delete barrier 0).
\<close>

theorem cache_published_only_forward_witness:
  "takes_forward_branch scenario_segment 1 3 False
   \<and> get_lru_entry (deleted_record_m (snd (get_deleted_bitmap scenario_segment 1 50 3 False)))
       = \<lparr>del_barrier = 1, bitmap_ptr = [False, False, True]\<rparr>
   \<and> takes_backward_branch dup_segment 0 3 False
   \<and> fst (get_deleted_bitmap dup_segment 0 50 3 False)
       = Inr \<lparr>del_barrier = 0, bitmap_ptr = [False, False, False]\<rparr>
   \<and> snd (get_deleted_bitmap dup_segment 0 50 3 False) = dup_segment"
proof -
  have f: "takes_forward_branch scenario_segment 1 3 False"
    by (simp add: takes_forward_branch_def fast_path_hit_def get_lru_entry_def scenario_lru)
  have b: "takes_backward_branch dup_segment 0 3 False"
    by (simp add: takes_backward_branch_def fast_path_hit_def get_lru_entry_def dup_parts)
  have e: "fst (get_deleted_bitmap dup_segment 0 50 3 False)
       = Inr \<lparr>del_barrier = 0, bitmap_ptr = [False, False, False]\<rparr>"
    by (simp add: query_defs dup_parts)
  have p1: "get_deleted_bitmap scenario_segment 1 50 3 False
      = (fst (get_deleted_bitmap scenario_segment 1 50 3 False),
         snd (get_deleted_bitmap scenario_segment 1 50 3 False))" by simp
  have p2: "get_deleted_bitmap dup_segment 0 50 3 False
      = (fst (get_deleted_bitmap dup_segment 0 50 3 False),
         snd (get_deleted_bitmap dup_segment 0 50 3 False))" by simp
  from cache_published_only_forward[OF p1] f scenario_query
  have "get_lru_entry (deleted_record_m (snd (get_deleted_bitmap scenario_segment 1 50 3 False)))
       = \<lparr>del_barrier = 1, bitmap_ptr = [False, False, True]\<rparr>"
    by (simp add: get_lru_entry_def insert_lru_entry_def)
  moreover from cache_published_only_forward[OF p2] b
  have "snd (get_deleted_bitmap dup_segment 0 50 3 False) = dup_segment" by simp
  ultimately show ?thesis using f b e by simp
qed

text \<open>
  Claim C10: when the cached entry's delete barrier is the requested one and either
  \<open>force\<close> is false or the cached bitmap spans exactly \<open>insert_barrier\<close> bits, the call
  returns the cached entry and leaves the segment as it was; the result is the same for
  every query timestamp; and with \<open>force\<close> false the returned bitmap can span fewer bits
  than \<open>insert_barrier\<close>.
\<close>

theorem fast_path_returns_cached:
  assumes "del_barrier (get_lru_entry (deleted_record_m s)) = del_bar"
    and "\<not> force \<or> bitmap_count (bitmap_ptr (get_lru_entry (deleted_record_m s))) = insert_barrier"
  shows "get_deleted_bitmap s del_bar query_timestamp insert_barrier force
           = (Inr (get_lru_entry (deleted_record_m s)), s)
       \<and> get_deleted_bitmap s del_bar other_timestamp insert_barrier force
           = get_deleted_bitmap s del_bar query_timestamp insert_barrier force
       \<and> (\<exists>s0 d0 i0 r0. get_deleted_bitmap s0 d0 query_timestamp i0 False = (Inr r0, s0)
              \<and> bitmap_count (bitmap_ptr r0) < i0)"
proof -
  have hit: "get_deleted_bitmap s del_bar ts insert_barrier force
           = (Inr (get_lru_entry (deleted_record_m s)), s)" for ts
    using assms by (auto simp: get_deleted_bitmap_def Let_def)
  have "get_deleted_bitmap stale_segment 1 query_timestamp 5 False
          = (Inr \<lparr>del_barrier = 1, bitmap_ptr = [True, False, False]\<rparr>, stale_segment)"
    by (simp add: get_deleted_bitmap_def Let_def get_lru_entry_def stale_lru)
  moreover have "bitmap_count (bitmap_ptr \<lparr>del_barrier = 1, bitmap_ptr = [True, False, False]\<rparr>) < 5"
    by (simp add: bitmap_count_def)
  ultimately have "\<exists>s0 d0 i0 r0. get_deleted_bitmap s0 d0 query_timestamp i0 False = (Inr r0, s0)
              \<and> bitmap_count (bitmap_ptr r0) < i0"
    by blast
  with hit show ?thesis by simp
qed

text \<open>
  Claim C10 on a new segment, whose cached bitmap spans no row.
\<close>

theorem fast_path_returns_cached_witness:
  "get_deleted_bitmap stale_segment 1 50 5 False
     = (Inr \<lparr>del_barrier = 1, bitmap_ptr = [True, False, False]\<rparr>, stale_segment)
   \<and> get_deleted_bitmap stale_segment 1 20 5 False = get_deleted_bitmap stale_segment 1 50 5 False
   \<and> bitmap_count [True, False, False] < 5"
  using fast_path_returns_cached[of stale_segment 1 False 5 50 20]
  by (simp add: get_lru_entry_def stale_lru bitmap_count_def)

section \<open>Insert (claims C6 and C7)\<close>

text \<open>
  Claim C6: after a successful \<^verbatim>\<open>Insert(reserved_begin, size, uids, timestamps, rows)\<close>
  there is a permutation \<open>p\<close> of the row indices \<open>0 .. size - 1\<close> such that the rows
  taken in the order \<open>p\<close> are in non-decreasing \<open>(timestamp, uid)\<close> order, and offset
  \<open>reserved_begin + k\<close> holds row \<open>p ! k\<close> in the timestamps column, in the uids column
  and in every field column (the field's bytes of that row of the row-major input); the
  uid index gains exactly the pairs \<open>(uid of row p ! k, reserved_begin + k)\<close>, in this
  order. The pairs are inserted only after all the data is written: the call has a trace
  of writes that ends in the returned segment, and every segment of the trace either
  still has the uid index of the start or already has the timestamps, uids and field
  columns of the end.
\<close>

theorem insert_writes_sorted_batch:
  assumes "Insert s reserved_begin n uids_raw timestamps_raw entities_raw = (Inr OK, s')"
  shows "\<exists>p s1 tr.
           length p = nat n \<and> set p = {0..<nat n} \<and> distinct p
         \<and> sorted (map (\<lambda>j. (timestamps_raw ! j, uids_raw ! j)) p)
         \<and> (\<forall>k < nat n.
               timestamps_m (record_m s') (reserved_begin + int k) = Some (timestamps_raw ! (p ! k))
             \<and> uids_m (record_m s') (reserved_begin + int k) = Some (uids_raw ! (p ! k))
             \<and> (\<forall>fid < length (schema_m s).
                   entity_vec_m (record_m s') fid (reserved_begin + int k)
                     = Some (row_field (schema_m s) (raw_data entities_raw)
                               (nat (sizeof_per_row entities_raw)) (p ! k) fid)))
         \<and> uid2offset_m s'
             = uid2offset_m s @ map (\<lambda>k. (uids_raw ! (p ! k), reserved_begin + int k)) [0..<nat n]
         \<and> uid2offset_m s1 = uid2offset_m s
         \<and> timestamps_m (record_m s1) = timestamps_m (record_m s')
         \<and> uids_m (record_m s1) = uids_m (record_m s')
         \<and> entity_vec_m (record_m s1) = entity_vec_m (record_m s')
         \<and> s' = acknowledge_insert
                  (publish_uids s1 reserved_begin (map (\<lambda>j. uids_raw ! j) p)) reserved_begin n
         \<and> Insert_trace s reserved_begin n uids_raw timestamps_raw entities_raw = Inr tr
         \<and> tr \<noteq> [] \<and> last tr = s'
         \<and> (\<forall>\<sigma> \<in> set tr.
               uid2offset_m \<sigma> = uid2offset_m s
             \<or> (timestamps_m (record_m \<sigma>) = timestamps_m (record_m s')
                \<and> uids_m (record_m \<sigma>) = uids_m (record_m s')
                \<and> entity_vec_m (record_m \<sigma>) = entity_vec_m (record_m s')))"
proof -
  have cnt: "count entities_raw = n"
    and sz: "sizeof_per_row entities_raw = get_total_sizeof (schema_m s)"
    using assms by (auto simp: Insert_def split: if_splits)
  obtain ord where mo: "make_ordering n uids_raw timestamps_raw = Inr ord"
    using assms cnt sz by (auto simp: Insert_def split: sum.splits)
  obtain entities where tr: "transpose_rows (schema_m s) (raw_data entities_raw)
      (nat (sizeof_per_row entities_raw)) ord = Inr entities"
    using assms cnt sz mo by (auto simp: Insert_def split: sum.splits)
  define tsl where "tsl = map fst ord"
  define ul where "ul = map (\<lambda>x. fst (snd x)) ord"
  define s1 where "s1 = fill_columns s reserved_begin tsl ul entities"
  define p where "p = map (\<lambda>x. snd (snd x)) ord"
  have s': "s' = acknowledge_insert (publish_uids s1 reserved_begin ul) reserved_begin n"
    using assms cnt sz mo tr by (simp add: Insert_def Let_def s1_def tsl_def ul_def)
  note ord = make_ordering_result[OF mo]
  have len_ord: "length ord = nat n" by (rule ord(2))
  have elem: "fst x = timestamps_raw ! snd (snd x) \<and> fst (snd x) = uids_raw ! snd (snd x)"
    if "x \<in> set ord" for x
    using that ord(4) by auto
  have len_p: "length p = nat n" by (simp add: p_def len_ord)
  have set_p: "set p = {0..<nat n}"
  proof -
    have "set p = (\<lambda>x. snd (snd x)) ` set ord" by (simp add: p_def)
    also have "\<dots> = (\<lambda>i. i) ` {0..<nat n}" unfolding ord(4) by (simp add: image_image)
    finally show ?thesis by simp
  qed
  have dist_p: "distinct p"
    by (rule card_distinct) (simp add: set_p len_p)
  have tsl_p: "tsl = map (\<lambda>j. timestamps_raw ! j) p"
    unfolding tsl_def p_def by (simp add: elem)
  have ul_p: "ul = map (\<lambda>j. uids_raw ! j) p"
    unfolding ul_def p_def by (simp add: elem)
  have "map (\<lambda>j. (timestamps_raw ! j, uids_raw ! j)) p = map (\<lambda>x. (fst x, fst (snd x))) ord"
    unfolding p_def by (simp add: elem)
  then have sorted_p: "sorted (map (\<lambda>j. (timestamps_raw ! j, uids_raw ! j)) p)"
    using sorted_projection[OF ord(3)] by simp
  have cols: "timestamps_m (record_m s') = set_data (timestamps_m (record_m s)) reserved_begin tsl"
    "uids_m (record_m s') = set_data (uids_m (record_m s)) reserved_begin ul"
    "\<And>fid. fid < length (schema_m s) \<Longrightarrow> entity_vec_m (record_m s') fid
        = set_data (entity_vec_m (record_m s) fid) reserved_begin (entities ! fid)"
    by (simp_all add: s' s1_def acknowledge_insert_def publish_uids_def fill_columns_def)
  have cells: "timestamps_m (record_m s') (reserved_begin + int k) = Some (timestamps_raw ! (p ! k))
             \<and> uids_m (record_m s') (reserved_begin + int k) = Some (uids_raw ! (p ! k))
             \<and> (\<forall>fid < length (schema_m s).
                   entity_vec_m (record_m s') fid (reserved_begin + int k)
                     = Some (row_field (schema_m s) (raw_data entities_raw)
                               (nat (sizeof_per_row entities_raw)) (p ! k) fid))"
    if k: "k < nat n" for k
  proof -
    have a: "timestamps_m (record_m s') (reserved_begin + int k) = Some (timestamps_raw ! (p ! k))"
      using k by (simp add: cols(1) set_data_in_range tsl_p len_p)
    have b: "uids_m (record_m s') (reserved_begin + int k) = Some (uids_raw ! (p ! k))"
      using k by (simp add: cols(2) set_data_in_range ul_p len_p)
    have c: "entity_vec_m (record_m s') fid (reserved_begin + int k)
                     = Some (row_field (schema_m s) (raw_data entities_raw)
                               (nat (sizeof_per_row entities_raw)) (p ! k) fid)"
      if fid: "fid < length (schema_m s)" for fid
    proof -
      have kk: "k < length ord" using k by (simp add: len_ord)
      note tr_res = transpose_rows_result[OF tr fid kk]
      have "entity_vec_m (record_m s') fid (reserved_begin + int k) = Some (entities ! fid ! k)"
        using kk tr_res(2) by (simp add: cols(3)[OF fid] set_data_in_range)
      also have "entities ! fid ! k = row_field (schema_m s) (raw_data entities_raw)
                               (nat (sizeof_per_row entities_raw)) (p ! k) fid"
        using tr_res(3) kk by (simp add: p_def)
      finally show ?thesis .
    qed
    from a b c show ?thesis by simp
  qed
  have idx: "uid2offset_m s'
      = uid2offset_m s @ map (\<lambda>k. (uids_raw ! (p ! k), reserved_begin + int k)) [0..<nat n]"
  proof -
    have "uid2offset_m s' = uid2offset_m s
            @ map (\<lambda>i. (ul ! i, reserved_begin + int i)) [0..<length ul]"
      by (simp add: s' s1_def acknowledge_insert_def publish_uids_def fill_columns_def)
    moreover have "length ul = nat n" by (simp add: ul_def len_ord)
    moreover have "map (\<lambda>i. (ul ! i, reserved_begin + int i)) [0..<nat n]
        = map (\<lambda>k. (uids_raw ! (p ! k), reserved_begin + int k)) [0..<nat n]"
      by (rule map_cong) (simp_all add: ul_p len_p)
    ultimately show ?thesis by simp
  qed
  have s1_parts: "uid2offset_m s1 = uid2offset_m s"
    "timestamps_m (record_m s1) = timestamps_m (record_m s')"
    "uids_m (record_m s1) = uids_m (record_m s')"
    "entity_vec_m (record_m s1) = entity_vec_m (record_m s')"
    by (simp_all add: s' s1_def acknowledge_insert_def publish_uids_def fill_columns_def)
  obtain tr where trace: "Insert_trace s reserved_begin n uids_raw timestamps_raw entities_raw = Inr tr"
      "last tr = s'"
    using assms Insert_trace_last[of s reserved_begin n uids_raw timestamps_raw entities_raw]
    by (auto split: sum.splits)
  have tr_eq: "tr = states_after (run_insert_step reserved_begin n tsl ul entities) s
                     (insert_steps (length (schema_m s)) (length ul))"
    using trace(1) cnt sz mo tr by (simp add: Insert_trace_def Let_def tsl_def ul_def)
  have ne: "tr \<noteq> []" by (simp add: tr_eq)
  have fin: "foldl (run_insert_step reserved_begin n tsl ul entities) s
               (insert_steps (length (schema_m s)) (length ul)) = s'"
    using trace(2) by (simp add: tr_eq states_after_last)
  have order: "\<forall>\<sigma> \<in> set tr.
               uid2offset_m \<sigma> = uid2offset_m s
             \<or> (timestamps_m (record_m \<sigma>) = timestamps_m (record_m s')
                \<and> uids_m (record_m \<sigma>) = uids_m (record_m s')
                \<and> entity_vec_m (record_m \<sigma>) = entity_vec_m (record_m s'))"
  proof
    fix \<sigma> assume "\<sigma> \<in> set tr"
    then have "\<sigma> \<in> set (states_after (run_insert_step reserved_begin n tsl ul entities) s
                     (insert_steps (length (schema_m s)) (length ul)))"
      by (simp add: tr_eq)
    from trace_order[OF this] show "uid2offset_m \<sigma> = uid2offset_m s
             \<or> (timestamps_m (record_m \<sigma>) = timestamps_m (record_m s')
                \<and> uids_m (record_m \<sigma>) = uids_m (record_m s')
                \<and> entity_vec_m (record_m \<sigma>) = entity_vec_m (record_m s'))"
      unfolding fin .
  qed
  have "length p = nat n \<and> set p = {0..<nat n} \<and> distinct p
         \<and> sorted (map (\<lambda>j. (timestamps_raw ! j, uids_raw ! j)) p)
         \<and> (\<forall>k < nat n.
               timestamps_m (record_m s') (reserved_begin + int k) = Some (timestamps_raw ! (p ! k))
             \<and> uids_m (record_m s') (reserved_begin + int k) = Some (uids_raw ! (p ! k))
             \<and> (\<forall>fid < length (schema_m s).
                   entity_vec_m (record_m s') fid (reserved_begin + int k)
                     = Some (row_field (schema_m s) (raw_data entities_raw)
                               (nat (sizeof_per_row entities_raw)) (p ! k) fid)))
         \<and> uid2offset_m s'
             = uid2offset_m s @ map (\<lambda>k. (uids_raw ! (p ! k), reserved_begin + int k)) [0..<nat n]
         \<and> uid2offset_m s1 = uid2offset_m s
         \<and> timestamps_m (record_m s1) = timestamps_m (record_m s')
         \<and> uids_m (record_m s1) = uids_m (record_m s')
         \<and> entity_vec_m (record_m s1) = entity_vec_m (record_m s')
         \<and> s' = acknowledge_insert
                  (publish_uids s1 reserved_begin (map (\<lambda>j. uids_raw ! j) p)) reserved_begin n
         \<and> Insert_trace s reserved_begin n uids_raw timestamps_raw entities_raw = Inr tr
         \<and> tr \<noteq> [] \<and> last tr = s'
         \<and> (\<forall>\<sigma> \<in> set tr.
               uid2offset_m \<sigma> = uid2offset_m s
             \<or> (timestamps_m (record_m \<sigma>) = timestamps_m (record_m s')
                \<and> uids_m (record_m \<sigma>) = uids_m (record_m s')
                \<and> entity_vec_m (record_m \<sigma>) = entity_vec_m (record_m s')))"
    using len_p set_p dist_p sorted_p cells idx s1_parts s' ul_p trace(1) ne trace(2) order by simp
  then show ?thesis by blast
qed

text \<open>
  Claim C6 on the batch \<open>three_rows\<close>: the rows are stored in the order 2, 1, 0 of
  their timestamps 10, 20, 30; the trace has eight segments, and the uid index is empty
  in the first four, after which the columns no longer change.
\<close>

theorem insert_writes_sorted_batch_witness:
  "map (timestamps_m (record_m filled_segment)) [0, 1, 2] = [Some 10, Some 20, Some 30]
   \<and> map (uids_m (record_m filled_segment)) [0, 1, 2] = [Some 1, Some 2, Some 1]
   \<and> map (entity_vec_m (record_m filled_segment) 0) [0, 1, 2] = [Some ''gh'', Some ''de'', Some ''ab'']
   \<and> map (entity_vec_m (record_m filled_segment) 1) [0, 1, 2] = [Some ''i'', Some ''f'', Some ''c'']
   \<and> uid2offset_m filled_segment = [(1, 0), (2, 1), (1, 2)]
   \<and> map uid2offset_m (case Insert_trace reserved_segment 0 3 [1, 2, 1] [30, 20, 10] three_rows of
                       Inl e \<Rightarrow> [] | Inr tr \<Rightarrow> tr)
     = [[], [], [], [], [(1, 0)], [(1, 0), (2, 1)], [(1, 0), (2, 1), (1, 2)],
        [(1, 0), (2, 1), (1, 2)]]
   \<and> (\<exists>p (s1 :: SegmentGrowingImpl) tr. length p = 3 \<and> set p = {0..<3} \<and> distinct p
         \<and> sorted (map (\<lambda>j. ([30, 20, 10] ! j :: nat, [1, 2, 1] ! j :: int)) p)
         \<and> uid2offset_m filled_segment
             = map (\<lambda>k. ([1, 2, 1] ! (p ! k), int k)) [0..<3]
         \<and> uid2offset_m s1 = []
         \<and> timestamps_m (record_m s1) = timestamps_m (record_m filled_segment)
         \<and> uids_m (record_m s1) = uids_m (record_m filled_segment)
         \<and> entity_vec_m (record_m s1) = entity_vec_m (record_m filled_segment)
         \<and> Insert_trace reserved_segment 0 3 [1, 2, 1] [30, 20, 10] three_rows = Inr tr
         \<and> tr \<noteq> [] \<and> last tr = filled_segment
         \<and> (\<forall>\<sigma> \<in> set tr.
               uid2offset_m \<sigma> = []
             \<or> (timestamps_m (record_m \<sigma>) = timestamps_m (record_m filled_segment)
                \<and> uids_m (record_m \<sigma>) = uids_m (record_m filled_segment)
                \<and> entity_vec_m (record_m \<sigma>) = entity_vec_m (record_m filled_segment))))"
proof -
  from insert_writes_sorted_batch[OF filled_run]
  have "\<exists>p (s1 :: SegmentGrowingImpl) tr. length p = 3 \<and> set p = {0..<3} \<and> distinct p
         \<and> sorted (map (\<lambda>j. ([30, 20, 10] ! j :: nat, [1, 2, 1] ! j :: int)) p)
         \<and> uid2offset_m filled_segment
             = map (\<lambda>k. ([1, 2, 1] ! (p ! k), int k)) [0..<3]
         \<and> uid2offset_m s1 = []
         \<and> timestamps_m (record_m s1) = timestamps_m (record_m filled_segment)
         \<and> uids_m (record_m s1) = uids_m (record_m filled_segment)
         \<and> entity_vec_m (record_m s1) = entity_vec_m (record_m filled_segment)
         \<and> Insert_trace reserved_segment 0 3 [1, 2, 1] [30, 20, 10] three_rows = Inr tr
         \<and> tr \<noteq> [] \<and> last tr = filled_segment
         \<and> (\<forall>\<sigma> \<in> set tr.
               uid2offset_m \<sigma> = []
             \<or> (timestamps_m (record_m \<sigma>) = timestamps_m (record_m filled_segment)
                \<and> uids_m (record_m \<sigma>) = uids_m (record_m filled_segment)
                \<and> entity_vec_m (record_m \<sigma>) = entity_vec_m (record_m filled_segment)))"
    apply (elim exE conjE)
    subgoal for p s1 tr
      by (rule exI[of _ p], rule exI[of _ s1], rule exI[of _ tr]) (simp add: reserved_parts)
    done
  with filled_parts filled_trace(1) show ?thesis by simp
qed

text \<open>
  Successful calls exist for every well-formed input: when the row count and the row
  length agree with the batch size and the schema, and the caller's arrays hold at least
  \<open>size\<close> elements and \<open>size\<close> rows, \<^verbatim>\<open>Insert\<close> returns \<open>OK\<close>.
\<close>

lemma Insert_succeeds:
  assumes "count entities_raw = n"
    and "sizeof_per_row entities_raw = get_total_sizeof (schema_m s)"
    and "0 \<le> n"
    and "n \<le> int (length uids_raw)" and "n \<le> int (length timestamps_raw)"
    and "nat n * sum_list (schema_m s) \<le> length (raw_data entities_raw)"
  shows "fst (Insert s reserved_begin n uids_raw timestamps_raw entities_raw) = Inr OK"
proof -
  define ord where "ord = sort (map (\<lambda>i. (timestamps_raw ! i, uids_raw ! i, i)) [0..<nat n])"
  have mo: "make_ordering n uids_raw timestamps_raw = Inr ord"
    using assms(3,4,5) by (simp add: make_ordering_def ord_def)
  have lpr: "nat (sizeof_per_row entities_raw) = sum_list (schema_m s)"
    using assms(2) by (simp add: get_total_sizeof_def)
  have idx: "snd (snd x) < nat n" if "x \<in> set ord" for x
    using that by (auto simp: ord_def)
  have cell: "\<exists>y. memcpy_from (raw_data entities_raw)
      (offset_infos (schema_m s) ! fid + snd (snd x) * sum_list (schema_m s)) (schema_m s ! fid) = Inr y"
    if "fid < length (schema_m s)" "x \<in> set ord" for fid x
  proof -
    have "Suc (snd (snd x)) \<le> nat n" using idx[OF that(2)] by simp
    then have "Suc (snd (snd x)) * sum_list (schema_m s) \<le> nat n * sum_list (schema_m s)"
      by (rule mult_le_mono1)
    then have "snd (snd x) * sum_list (schema_m s) + sum_list (schema_m s)
                 \<le> length (raw_data entities_raw)"
      using assms(6) by simp
    moreover have "offset_infos (schema_m s) ! fid + schema_m s ! fid \<le> sum_list (schema_m s)"
      using that(1) sum_list_take_Suc_le[OF that(1)] by (simp add: offset_infos_nth)
    ultimately show ?thesis by (simp add: memcpy_from_def)
  qed
  have "\<exists>entities. transpose_rows (schema_m s) (raw_data entities_raw)
      (nat (sizeof_per_row entities_raw)) ord = Inr entities"
    unfolding transpose_rows_def lpr
    by (intro collect_total ballI) (auto simp: case_prod_beta intro!: cell)
  then obtain entities where "transpose_rows (schema_m s) (raw_data entities_raw)
      (nat (sizeof_per_row entities_raw)) ord = Inr entities" by blast
  with mo assms(1,2) show ?thesis by (simp add: Insert_def Let_def)
qed

text \<open>
  Claim C7 says that \<^verbatim>\<open>Insert\<close> fails with the schema-mismatch error exactly when the
  per-row byte length differs from the schema's total row size. The code first asserts
  that the buffer's row count is the batch size (source line 122), so a call whose row
  count differs fails on the assertion, whatever the byte lengths are.
\<close>

theorem assertion_precedes_schema_check_counterexample:
  "sizeof_per_row \<lparr>raw_data = ''ab'', sizeof_per_row = 2, count = 1\<rparr>
     \<noteq> get_total_sizeof (schema_m (new_segment [4]))
   \<and> Insert (new_segment [4]) 0 2 [1, 2] [10, 20] \<lparr>raw_data = ''ab'', sizeof_per_row = 2, count = 1\<rparr>
     = (Inl AssertFailure, new_segment [4])"
  by (simp add: Insert_def new_segment_def get_total_sizeof_def)

text \<open>
  Claim C7, amended: \<^verbatim>\<open>Insert\<close> fails with the schema-mismatch error exactly when the
  buffer's row count equals the batch size and the per-row byte length differs from the
  schema's total row size; the failure carries the two lengths and leaves the segment as
  it was, so no uid index entry is published and no column is written. When the byte
  lengths match, no schema-mismatch error occurs.
\<close>

theorem schema_mismatch_iff:
  "((\<exists>a b. fst (Insert s reserved_begin n uids_raw timestamps_raw entities_raw)
             = Inl (SchemaMismatch a b))
      = (count entities_raw = n
         \<and> sizeof_per_row entities_raw \<noteq> get_total_sizeof (schema_m s)))
   \<and> (count entities_raw = n \<and> sizeof_per_row entities_raw \<noteq> get_total_sizeof (schema_m s)
      \<longrightarrow> Insert s reserved_begin n uids_raw timestamps_raw entities_raw
          = (Inl (SchemaMismatch (sizeof_per_row entities_raw) (get_total_sizeof (schema_m s))), s))"
proof -
  have "\<not> (\<exists>a b. fst (Insert s reserved_begin n uids_raw timestamps_raw entities_raw)
             = Inl (SchemaMismatch a b))"
    if "count entities_raw \<noteq> n \<or> sizeof_per_row entities_raw = get_total_sizeof (schema_m s)"
    using that
    by (auto simp: Insert_def Let_def split: sum.splits
        dest: make_ordering_error transpose_rows_error)
  then show ?thesis
    by (auto simp: Insert_def)
qed

text \<open>
  The amended claim C7 on a schema of one 4-byte field and a buffer of 2-byte rows.
\<close>

theorem schema_mismatch_iff_witness:
  "Insert (new_segment [4]) 0 1 [1] [10] \<lparr>raw_data = ''ab'', sizeof_per_row = 2, count = 1\<rparr>
     = (Inl (SchemaMismatch 2 4), new_segment [4])"
  using schema_mismatch_iff[of "new_segment [4]" 0 1 "[1]" "[10]"
      "\<lparr>raw_data = ''ab'', sizeof_per_row = 2, count = 1\<rparr>"]
  by (simp add: new_segment_def get_total_sizeof_def)

section \<open>Close (claim C8)\<close>

text \<open>
  Claim C8: \<^verbatim>\<open>Close\<close> returns \<open>OK\<close> with the segment in state \<open>Closed\<close> exactly when
  the reservation counter equals the acknowledgment frontier in the insert record and in
  the deleted record; in every other case it panics and leaves the segment as it was.
\<close>

theorem Close_succeeds_iff:
  "((fst (Close s) = Inr OK \<and> state_m (snd (Close s)) = Closed)
      = (reserved (record_m s) = GetAck (ack_responder_m (record_m s))
         \<and> reserved (deleted_record_m s) = GetAck (ack_responder_m (deleted_record_m s))))
   \<and> ((\<exists>msg. Close s = (Inl (Panic msg), s))
      = (\<not> (reserved (record_m s) = GetAck (ack_responder_m (record_m s))
         \<and> reserved (deleted_record_m s) = GetAck (ack_responder_m (deleted_record_m s)))))"
  by (simp add: Close_def)

text \<open>
  Claim C8 on \<open>inserted_segment\<close>, whose three reserved rows are acknowledged, and on the
  same segment after a further reservation that no \<^verbatim>\<open>Insert\<close> has filled.
\<close>

theorem Close_succeeds_iff_witness:
  "fst (Close inserted_segment) = Inr OK
   \<and> state_m (snd (Close inserted_segment)) = Closed
   \<and> Close (snd (PreInsert inserted_segment 2))
      = (Inl (Panic ''insert not ready''), snd (PreInsert inserted_segment 2))"
proof -
  have a: "GetAck (ack_responder_m (record_m inserted_segment)) = 3"
    and b: "GetAck (ack_responder_m (deleted_record_m inserted_segment)) = 0"
    by (simp_all add: GetAck_def extend_frontier_def inserted_parts)
  have c: "reserved (record_m (snd (PreInsert inserted_segment 2))) = 5"
    and d: "ack_responder_m (record_m (snd (PreInsert inserted_segment 2)))
              = ack_responder_m (record_m inserted_segment)"
    by (simp_all add: PreInsert_def fetch_add_def inserted_parts signed_take_bit_int_eq_self)
  from Close_succeeds_iff[of inserted_segment] a b
  have "fst (Close inserted_segment) = Inr OK \<and> state_m (snd (Close inserted_segment)) = Closed"
    by (simp add: inserted_parts)
  moreover have "Close (snd (PreInsert inserted_segment 2))
      = (Inl (Panic ''insert not ready''), snd (PreInsert inserted_segment 2))"
    by (simp add: Close_def c d a)
  ultimately show ?thesis by simp
qed

section \<open>Reservation (claim C9)\<close>

text \<open>
  Claim C9 says that for every sequence of \<^verbatim>\<open>PreInsert\<close> and \<^verbatim>\<open>PreDelete\<close> calls the
  returned ranges of each record are pairwise disjoint and cover \<open>[0, total_reserved)\<close>.
  The counter is moved by whatever size is passed: after \<^verbatim>\<open>PreInsert(5)\<close> and
  \<^verbatim>\<open>PreInsert(-3)\<close> the counter is 2, and \<^verbatim>\<open>PreInsert(2)\<close> returns the range \<open>[2, 4)\<close>
  inside the first range \<open>[0, 5)\<close>.
\<close>

theorem negative_size_counterexample:
  "fst (run_reservations (new_segment []) [PreInsertCall 5, PreInsertCall (- 3), PreInsertCall 2])
     = [(PreInsertCall 5, 0), (PreInsertCall (- 3), 5), (PreInsertCall 2, 2)]
   \<and> \<not> pairwise_disjoint (insert_ranges
           [(PreInsertCall 5, 0), (PreInsertCall (- 3), 5), (PreInsertCall 2, 2)])
   \<and> range_of (0, 5) \<inter> range_of (2, 2) = {2, 3}"
  by (auto simp: PreInsert_def fetch_add_def new_segment_def Let_def range_of_def
      signed_take_bit_int_eq_self)

text \<open>
  Claim C9, amended: for every sequence of \<^verbatim>\<open>PreInsert\<close> and \<^verbatim>\<open>PreDelete\<close> calls
  that starts with both reservation counters at 0, whose sizes are not negative and
  whose total per record stays below \<open>2^63\<close>, the returned ranges \<open>[begin, begin + n)\<close>
  of each record are pairwise disjoint and their union is \<open>[0, reserved)\<close> for that
  record's reservation counter, which is the sum of the record's sizes.
\<close>

theorem reservations_partition:
  assumes "\<forall>c \<in> set calls. 0 \<le> call_size c"
    and "insert_total calls < 2 ^ 63"
    and "delete_total calls < 2 ^ 63"
    and "reserved (record_m s) = 0"
    and "reserved (deleted_record_m s) = 0"
    and "run_reservations s calls = (rs, s')"
  shows "pairwise_disjoint (insert_ranges rs)
       \<and> \<Union> (range_of ` set (insert_ranges rs)) = {0 ..< reserved (record_m s')}
       \<and> reserved (record_m s') = insert_total calls
       \<and> pairwise_disjoint (delete_ranges rs)
       \<and> \<Union> (range_of ` set (delete_ranges rs)) = {0 ..< reserved (deleted_record_m s')}
       \<and> reserved (deleted_record_m s') = delete_total calls"
proof -
  from run_reservations_insert_ranges[OF assms(1) _ _ assms(6)] assms(2,4)
  have "pairwise_disjoint (insert_ranges rs)
       \<and> \<Union> (range_of ` set (insert_ranges rs)) = {0 ..< reserved (record_m s')}
       \<and> reserved (record_m s') = insert_total calls"
    by simp
  moreover
  from run_reservations_delete_ranges[OF assms(1) _ _ assms(6)] assms(3,5)
  have "pairwise_disjoint (delete_ranges rs)
       \<and> \<Union> (range_of ` set (delete_ranges rs)) = {0 ..< reserved (deleted_record_m s')}
       \<and> reserved (deleted_record_m s') = delete_total calls"
    by simp
  ultimately show ?thesis by simp
qed

text \<open>
  The amended claim C9 on two insert reservations around a delete reservation.
\<close>

theorem reservations_partition_witness:
  "insert_ranges (fst (run_reservations (new_segment [])
       [PreInsertCall 2, PreDeleteCall 1, PreInsertCall 3])) = [(0, 2), (2, 3)]
   \<and> pairwise_disjoint [(0, 2), (2, 3)]
   \<and> range_of (0, 2) \<union> range_of (2, 3) = {0 ..< 5}
   \<and> delete_ranges (fst (run_reservations (new_segment [])
       [PreInsertCall 2, PreDeleteCall 1, PreInsertCall 3])) = [(0, 1)]
   \<and> range_of (0, 1) = {0 ..< 1}"
proof -
  define calls where "calls = [PreInsertCall 2, PreDeleteCall 1, PreInsertCall 3]"
  have nonneg: "\<forall>c \<in> set calls. 0 \<le> call_size c"
    by (simp add: calls_def call_size_def)
  have it: "insert_total calls < 2 ^ 63" and dt: "delete_total calls < 2 ^ 63"
    by (simp_all add: calls_def insert_total_def delete_total_def)
  have run: "run_reservations (new_segment []) calls
      = (fst (run_reservations (new_segment []) calls), snd (run_reservations (new_segment []) calls))"
    by simp
  have i0: "reserved (record_m (new_segment [])) = 0"
    and d0: "reserved (deleted_record_m (new_segment [])) = 0"
    by (simp_all add: new_segment_def)
  from reservations_partition[OF nonneg it dt i0 d0 run]
  show ?thesis
    unfolding calls_def run_three_results by simp
qed

end
